theory Spec2Isabelle
  imports Main "HOL-Library.Sublist"
begin

section \<open>Strings and the two token expressions of the route compiler\<close>

text \<open>
  Go strings are byte sequences; they are modelled as \<open>string\<close> (a list of 8-bit
  characters). \<open>isWordChar\<close> is the class \<^verbatim>\<open>\w\<close> of Go's regexp syntax, the ASCII
  letters, digits and the underscore.
\<close>

definition isWordChar :: "char \<Rightarrow> bool" where
  "isWordChar c =
     (let n = (of_char c :: nat)
      in (48 \<le> n \<and> n \<le> 57) \<or> (65 \<le> n \<and> n \<le> 90) \<or> n = 95 \<or> (97 \<le> n \<and> n \<le> 122))"

text \<open>\<^verbatim>\<open>strings.Trim(s, cutset)\<close>: all leading and trailing bytes of the cutset removed.\<close>

definition Trim :: "string \<Rightarrow> string \<Rightarrow> string" where
  "Trim s cutset =
     rev (dropWhile (\<lambda>c. c \<in> set cutset) (rev (dropWhile (\<lambda>c. c \<in> set cutset) s)))"

text \<open>\<^verbatim>\<open>strings.ToUpper\<close> on ASCII text: the letters a to z are shifted, every other byte kept.\<close>

definition upperChar :: "char \<Rightarrow> char" where
  "upperChar c =
     (let n = (of_char c :: nat) in if 97 \<le> n \<and> n \<le> 122 then char_of (n - 32) else c)"

definition ToUpper :: "string \<Rightarrow> string" where
  "ToUpper s = map upperChar s"

text \<open>
  The route compiler uses two fixed expressions, \<^verbatim>\<open>\{(\w+)\}\<close> and \<^verbatim>\<open>\{(\w+)\?\}\<close>.
  \<open>matchAt re s\<close> is the match of the expression that starts at the head of \<open>s\<close>: the
  matched text and the rest of \<open>s\<close>. A brace, a question mark and a closing brace are
  not word characters, so the greedy \<^verbatim>\<open>\w+\<close> has exactly one way to match.
\<close>

datatype tokenRe = RequiredRe | OptionalRe

definition closing :: "tokenRe \<Rightarrow> string" where
  "closing re = (case re of RequiredRe \<Rightarrow> ''}'' | OptionalRe \<Rightarrow> ''?}'')"

definition matchAt :: "tokenRe \<Rightarrow> string \<Rightarrow> (string \<times> string) option" where
  "matchAt re s =
     (case s of
        [] \<Rightarrow> None
      | c # cs \<Rightarrow>
          (let w = takeWhile isWordChar cs; rest = dropWhile isWordChar cs
           in if c = CHR ''{'' \<and> w \<noteq> [] \<and> prefix (closing re) rest
              then Some (c # w @ closing re, drop (length (closing re)) rest)
              else None))"

text \<open>
  \<^verbatim>\<open>Regexp.ReplaceAllStringFunc\<close> for these expressions: the text is scanned from the
  left, every match is replaced by what the callback returns, matches do not overlap.
  The callbacks of \<^verbatim>\<open>Route.compile\<close> append to \<^verbatim>\<open>route.paramNames\<close>, so the callback
  takes and returns the list of names.
\<close>

function ReplaceAllStringFunc ::
  "tokenRe \<Rightarrow> (string \<Rightarrow> string list \<Rightarrow> string \<times> string list) \<Rightarrow> string \<Rightarrow> string list
     \<Rightarrow> string \<times> string list" where
  "ReplaceAllStringFunc re repl [] names = ([], names)"
| "ReplaceAllStringFunc re repl (c # cs) names =
     (case matchAt re (c # cs) of
        Some (m, rest) \<Rightarrow>
          (let (text, names') = repl m names;
               (out, names'') = ReplaceAllStringFunc re repl rest names'
           in (text @ out, names''))
      | None \<Rightarrow>
          (let (out, names') = ReplaceAllStringFunc re repl cs names
           in (c # out, names')))"
  by pat_completeness auto
termination
  apply (relation "measure (\<lambda>(re, repl, s, names). length s)")
    apply simp
   apply simp
  apply (clarsimp simp: matchAt_def Let_def split: if_splits)
  apply (rule le_less_trans [OF diff_le_self])
  apply (rule le_less_trans [OF length_dropWhile_le])
  apply simp
  done

section \<open>The regexp package on the patterns the compiler emits\<close>

text \<open>
  \<^verbatim>\<open>regexp\<close> is Go's standard library. Its behaviour is modelled, from its documentation,
  on the patterns \<^verbatim>\<open>Route.compile\<close> builds from a template whose literal text has no
  regexp metacharacter: an anchored sequence of literal characters, required captures
  \<^verbatim>\<open>([^/]+)\<close> and optional captures \<^verbatim>\<open>(?:([^/]+))?\<close>. \<open>MustCompile\<close> answers \<open>None\<close> on
  every other pattern: there the package either panics (an invalid expression) or gives
  the literal text a meaning this development does not model.
\<close>

datatype inst = Chr char | ReqCap | OptCap

type_synonym regexp = "inst list"

definition reqText :: string where
  "reqText = ''([^/]+)''"

definition optText :: string where
  "optText = ''(?:([^/]+))?''"

definition metachars :: string where
  "metachars = CHR 0x5C # ''.+*?()|[]{}^$''"

definition plain :: "char \<Rightarrow> bool" where
  "plain c = (c \<notin> set metachars \<and> (of_char c :: nat) < 128)"

fun regexp_parse :: "string \<Rightarrow> regexp option" where
  "regexp_parse [] = Some []"
| "regexp_parse (c # cs) =
     (if prefix optText (c # cs) then map_option (Cons OptCap) (regexp_parse (drop 11 cs))
      else if prefix reqText (c # cs) then map_option (Cons ReqCap) (regexp_parse (drop 6 cs))
      else if plain c then map_option (Cons (Chr c)) (regexp_parse cs)
      else None)"

definition MustCompile :: "string \<Rightarrow> regexp option" where
  "MustCompile pat =
     (case pat of
        [] \<Rightarrow> None
      | c # cs \<Rightarrow>
          if c = CHR ''^'' \<and> cs \<noteq> [] \<and> last cs = CHR ''$'' then regexp_parse (butlast cs)
          else None)"

text \<open>
  Matching is leftmost-first, as the package documents: the match a backtracking search
  finds first. \<open>runs re s\<close> lists, in that search's order, the captures of every way the
  whole of \<open>s\<close> matches \<open>re\<close>: a capture tries its longest run of non-separator characters
  first, and an optional capture is skipped only after every such run has failed. A
  group that took no part in the match is reported as the empty string.
\<close>

definition segLen :: "string \<Rightarrow> nat" where
  "segLen s = length (takeWhile (\<lambda>c. c \<noteq> CHR ''/'') s)"

fun capture :: "(string \<Rightarrow> string list list) \<Rightarrow> string \<Rightarrow> nat \<Rightarrow> string list list" where
  "capture cont s 0 = []"
| "capture cont s (Suc k) =
     map (Cons (take (Suc k) s)) (cont (drop (Suc k) s)) @ capture cont s k"

primrec runs :: "regexp \<Rightarrow> string \<Rightarrow> string list list" where
  "runs [] s = (if s = [] then [[]] else [])"
| "runs (i # is) s =
     (case i of
        Chr c \<Rightarrow> (case s of [] \<Rightarrow> [] | d # ds \<Rightarrow> if d = c then runs is ds else [])
      | ReqCap \<Rightarrow> capture (runs is) s (segLen s)
      | OptCap \<Rightarrow> capture (runs is) s (segLen s) @ map (Cons []) (runs is s))"

definition FindStringSubmatch :: "regexp \<Rightarrow> string \<Rightarrow> string list option" where
  "FindStringSubmatch re s = (case runs re s of [] \<Rightarrow> None | caps # _ \<Rightarrow> Some (s # caps))"

section \<open>Route compilation and matching (router.go)\<close>

text \<open>
  \<^verbatim>\<open>Route.compile\<close>: the two replacement passes over the path, then the anchored
  pattern is compiled. The result is the pair of fields the method sets on the route,
  \<^verbatim>\<open>pattern\<close> and \<^verbatim>\<open>paramNames\<close>; \<open>None\<close> stands for the panic of \<^verbatim>\<open>MustCompile\<close>.
\<close>

definition compilePattern :: "string \<Rightarrow> string \<times> string list" where
  "compilePattern path =
     (let (p1, names1) =
            ReplaceAllStringFunc RequiredRe
              (\<lambda>m names. (''([^/]+)'', names @ [Trim m ''{}''])) path [];
          (p2, names2) =
            ReplaceAllStringFunc OptionalRe
              (\<lambda>m names. (''(?:([^/]+))?'', names @ [Trim m ''{?}''])) p1 names1
      in (''^'' @ p2 @ ''$'', names2))"

definition compile :: "string \<Rightarrow> (regexp \<times> string list) option" where
  "compile path =
     (let (pat, names) = compilePattern path
      in map_option (\<lambda>re. (re, names)) (MustCompile pat))"

section \<open>The request context (Context and its helpers)\<close>

text \<open>
  \<^verbatim>\<open>Map\<close> is \<^verbatim>\<open>map[string]interface{}\<close>; the values the dispatch core puts in one
  are strings and booleans. A response body written by \<^verbatim>\<open>JSON\<close> is kept as the
  \<^verbatim>\<open>Map\<close> that was marshalled, \<open>None\<close> while nothing has been written.
\<close>

datatype jval = JStr string | JBool bool | JInt int

type_synonym Map = "string \<rightharpoonup> jval"

text \<open>
  The fields of the underlying fasthttp request and response that the core reads and
  writes are fields of the context itself. \<open>route\<close> is the pointer to the matched
  route: its method bucket and its position there.
\<close>

record Context =
  reqMethod :: string
  reqPath :: string
  reqHeaders :: "string \<rightharpoonup> string"
  remoteIP :: string
  statusCode :: nat
  contentType :: string
  body :: "Map option"
  params :: "string \<rightharpoonup> string"
  route :: "(string \<times> nat) option"
  store :: "string \<rightharpoonup> jval"

text \<open>A Go \<^verbatim>\<open>error\<close>: \<open>None\<close> is \<^verbatim>\<open>nil\<close>.\<close>

type_synonym error = "string option"

type_synonym HandlerFunc = "Context \<Rightarrow> error \<times> Context"

type_synonym MiddlewareFunc = "HandlerFunc \<Rightarrow> HandlerFunc"

definition Header :: "Context \<Rightarrow> string \<Rightarrow> string" where
  "Header c name = (case reqHeaders c name of None \<Rightarrow> [] | Some v \<Rightarrow> v)"

definition Method :: "Context \<Rightarrow> string" where
  "Method c = reqMethod c"

definition Path :: "Context \<Rightarrow> string" where
  "Path c = reqPath c"

definition IP :: "Context \<Rightarrow> string" where
  "IP c = remoteIP c"

definition Status :: "nat \<Rightarrow> Context \<Rightarrow> Context" where
  "Status code c = c\<lparr>statusCode := code\<rparr>"

text \<open>\<^verbatim>\<open>json.Marshal\<close> cannot fail on a map of strings, booleans and integers.\<close>

definition JSON :: "Map \<Rightarrow> Context \<Rightarrow> error \<times> Context" where
  "JSON data c = (None, c\<lparr>contentType := ''application/json'', body := Some data\<rparr>)"

definition AbortWithJSON :: "nat \<Rightarrow> Map \<Rightarrow> Context \<Rightarrow> error \<times> Context" where
  "AbortWithJSON code data c = JSON data (Status code c)"

text \<open>\<^verbatim>\<open>Context.Error(message, code...)\<close>, the helper that writes the failure envelope.\<close>

definition Error :: "string \<Rightarrow> nat list \<Rightarrow> Context \<Rightarrow> error \<times> Context" where
  "Error message code c =
     (let statusCode = (case code of [] \<Rightarrow> 400 | x # _ \<Rightarrow> x)
      in JSON [''success'' \<mapsto> JBool False, ''error'' \<mapsto> JStr message] (Status statusCode c))"

definition Set :: "string \<Rightarrow> jval \<Rightarrow> Context \<Rightarrow> Context" where
  "Set key v c = c\<lparr>store := (store c)(key \<mapsto> v)\<rparr>"

definition GetString :: "Context \<Rightarrow> string \<Rightarrow> string" where
  "GetString c key = (case store c key of Some (JStr v) \<Rightarrow> v | _ \<Rightarrow> [])"

section \<open>Routes and routers (router.go)\<close>

text \<open>
  The field \<^verbatim>\<open>method\<close> of a route is \<open>routeMethod\<close> here, and the fields
  \<^verbatim>\<open>middleware\<close> and \<^verbatim>\<open>prefix\<close> of a router are \<open>rmiddleware\<close> and \<open>rprefix\<close>: the
  source's names are taken by Isabelle or by the route's own fields.
\<close>

record Route =
  routeMethod :: string
  path :: string
  handler :: HandlerFunc
  middleware :: "MiddlewareFunc list"
  name :: string
  pattern :: regexp
  paramNames :: "string list"

text \<open>
  \<^verbatim>\<open>Router.Group\<close> copies the map \<^verbatim>\<open>r.routes\<close> by reference, so a router and all its
  groups read and write one table. The store holds that table once, and the routers
  (the root at index 0) with the fields each owns; a \<^verbatim>\<open>*Router\<close> is an index into
  \<open>routers\<close>, a \<^verbatim>\<open>*Route\<close> a method and a position in its bucket.
\<close>

record Router =
  rmiddleware :: "MiddlewareFunc list"
  rprefix :: string
  parent :: "nat option"

record RouterStore =
  routes :: "string \<rightharpoonup> Route list"
  routers :: "Router list"

definition NewRouter :: RouterStore where
  "NewRouter = \<lparr>routes = Map.empty,
                routers = [\<lparr>rmiddleware = [], rprefix = [], parent = None\<rparr>]\<rparr>"

text \<open>
  \<^verbatim>\<open>Router.Add\<close>: the route is built, compiled and appended to the bucket of its
  upper-cased method. The result is the pointer to the new route and the store. The
  receiver \<open>r\<close> is a router of the store (\<open>r < length (routers st)\<close>), as a \<^verbatim>\<open>*Router\<close>
  obtained from \<^verbatim>\<open>NewRouter\<close> or \<^verbatim>\<open>Group\<close> is.
\<close>

definition Add ::
  "nat \<Rightarrow> string \<Rightarrow> string \<Rightarrow> HandlerFunc \<Rightarrow> RouterStore
     \<Rightarrow> ((string \<times> nat) \<times> RouterStore) option" where
  "Add r meth p h st =
     (let m = ToUpper meth; full = rprefix (routers st ! r) @ p
      in case compile full of
           None \<Rightarrow> None
         | Some (re, names) \<Rightarrow>
             (let rt = \<lparr>routeMethod = m, path = full, handler = h, middleware = [], name = [],
                        pattern = re, paramNames = names\<rparr>;
                  bucket = (case routes st m of None \<Rightarrow> [] | Some rs \<Rightarrow> rs)
              in Some ((m, length bucket), st\<lparr>routes := (routes st)(m \<mapsto> bucket @ [rt])\<rparr>)))"

text \<open>\<^verbatim>\<open>Route.Middleware\<close> and \<^verbatim>\<open>Route.Name\<close> write through the route pointer.\<close>

definition updRoute :: "(string \<times> nat) \<Rightarrow> (Route \<Rightarrow> Route) \<Rightarrow> RouterStore \<Rightarrow> RouterStore" where
  "updRoute ref f st =
     (case routes st (fst ref) of
        None \<Rightarrow> st
      | Some rs \<Rightarrow>
          if snd ref < length rs
          then st\<lparr>routes := (routes st)(fst ref \<mapsto> rs[snd ref := f (rs ! snd ref)])\<rparr>
          else st)"

definition Route_Middleware ::
  "(string \<times> nat) \<Rightarrow> MiddlewareFunc list \<Rightarrow> RouterStore \<Rightarrow> RouterStore" where
  "Route_Middleware ref mws st = updRoute ref (\<lambda>rt. rt\<lparr>middleware := middleware rt @ mws\<rparr>) st"

definition Route_Name :: "(string \<times> nat) \<Rightarrow> string \<Rightarrow> RouterStore \<Rightarrow> RouterStore" where
  "Route_Name ref n st = updRoute ref (\<lambda>rt. rt\<lparr>name := n\<rparr>) st"

text \<open>\<^verbatim>\<open>Router.Middleware\<close> appends to the middleware of the router it is called on.\<close>

definition Router_Middleware :: "nat \<Rightarrow> MiddlewareFunc list \<Rightarrow> RouterStore \<Rightarrow> RouterStore" where
  "Router_Middleware r mws st =
     (if r < length (routers st)
      then st\<lparr>routers := (routers st)[r := (routers st ! r)\<lparr>rmiddleware :=
                 rmiddleware (routers st ! r) @ mws\<rparr>]\<rparr>
      else st)"

text \<open>
  \<^verbatim>\<open>Route.Match\<close>: no match is \<open>None\<close>; otherwise the loop over \<^verbatim>\<open>paramNames\<close> binds the
  name at position \<open>i\<close> to submatch \<open>i + 1\<close> when that one exists and is not empty.
\<close>

definition Match :: "Route \<Rightarrow> string \<Rightarrow> (string \<rightharpoonup> string) option" where
  "Match rt p =
     (case FindStringSubmatch (pattern rt) p of
        None \<Rightarrow> None
      | Some matches \<Rightarrow>
          Some (fold (\<lambda>(i, nm) ps.
                        if i + 1 < length matches \<and> matches ! (i + 1) \<noteq> []
                        then ps(nm \<mapsto> matches ! (i + 1)) else ps)
                     (enumerate 0 (paramNames rt)) Map.empty))"

text \<open>
  The two loops of \<^verbatim>\<open>Handle\<close> (and the one of \<^verbatim>\<open>buildHandler\<close>) run from the last
  middleware to the first, each wrapping the handler built so far.
\<close>

definition wrap :: "MiddlewareFunc list \<Rightarrow> HandlerFunc \<Rightarrow> HandlerFunc" where
  "wrap mws h = fold (\<lambda>mw acc. mw acc) (rev mws) h"

definition notFound :: HandlerFunc where
  "notFound c = JSON [''error'' \<mapsto> JStr ''Not Found''] (Status 404 c)"

text \<open>
  \<^verbatim>\<open>Router.Handle\<close>: the bucket of the request's method is scanned in order; the first
  route that matches gets the request. \<open>r\<close> is the router the method is called on.
\<close>

fun scanRoutes :: "Router \<Rightarrow> string \<Rightarrow> Route list \<Rightarrow> nat \<Rightarrow> HandlerFunc" where
  "scanRoutes r m [] i c = notFound c"
| "scanRoutes r m (rt # rest) i c =
     (case Match rt (reqPath c) of
        Some ps \<Rightarrow>
          wrap (rmiddleware r) (wrap (middleware rt) (handler rt))
            (c\<lparr>params := ps, route := Some (m, i)\<rparr>)
      | None \<Rightarrow> scanRoutes r m rest (Suc i) c)"

definition Handle :: "RouterStore \<Rightarrow> nat \<Rightarrow> HandlerFunc" where
  "Handle st r c =
     (case routes st (reqMethod c) of
        None \<Rightarrow> notFound c
      | Some rs \<Rightarrow> scanRoutes (routers st ! r) (reqMethod c) rs 0 c)"

text \<open>
  \<^verbatim>\<open>Router.Group\<close>: a new router with the extended prefix, no middleware and the same
  route table; the callback then runs on it.
\<close>

definition Group ::
  "nat \<Rightarrow> string \<Rightarrow> (nat \<Rightarrow> RouterStore \<Rightarrow> RouterStore option) \<Rightarrow> RouterStore
     \<Rightarrow> (nat \<times> RouterStore) option" where
  "Group r pfx fn st =
     (let g = length (routers st);
          group = \<lparr>rmiddleware = [], rprefix = rprefix (routers st ! r) @ pfx, parent = Some r\<rparr>
      in map_option (Pair g) (fn g (st\<lparr>routers := routers st @ [group]\<rparr>)))"

section \<open>The application's entry point (application.go)\<close>

record Application =
  router :: RouterStore
  appMiddleware :: "MiddlewareFunc list"

definition Use :: "MiddlewareFunc list \<Rightarrow> Application \<Rightarrow> Application" where
  "Use mws a = a\<lparr>appMiddleware := appMiddleware a @ mws\<rparr>"

text \<open>\<^verbatim>\<open>buildHandler\<close>: the root router's \<^verbatim>\<open>Handle\<close> wrapped in the global middleware.\<close>

definition buildHandler :: "Application \<Rightarrow> HandlerFunc" where
  "buildHandler a = wrap (appMiddleware a) (Handle (router a) 0)"

section \<open>Built-in middleware: the content-type gate and the rate limiter\<close>

text \<open>\<^verbatim>\<open>strings.Contains(s, substr)\<close>.\<close>

fun Contains :: "string \<Rightarrow> string \<Rightarrow> bool" where
  "Contains [] sub = (sub = [])"
| "Contains (c # cs) sub = (prefix sub (c # cs) \<or> Contains cs sub)"

definition JSONOnlyMiddleware :: MiddlewareFunc where
  "JSONOnlyMiddleware next c =
     (let contentType = Header c ''Content-Type''
      in if Method c \<noteq> ''GET'' \<and> Method c \<noteq> ''DELETE''
            \<and> \<not> Contains contentType ''application/json''
         then AbortWithJSON 415 [''error'' \<mapsto> JStr ''Content-Type must be application/json''] c
         else next c)"

text \<open>
  The rate limiter keeps, in a map captured by the closure, a request count and a reset
  time per client address. The map and the clock reading \<^verbatim>\<open>time.Now()\<close> are passed in
  and the map is returned; times are integers (nanoseconds), \<^verbatim>\<open>time.Minute\<close> is
  \<open>minute\<close>.
\<close>

record client =
  requests :: int
  resetTime :: int

definition minute :: int where
  "minute = 60000000000"

definition RateLimitMiddleware ::
  "int \<Rightarrow> HandlerFunc \<Rightarrow> int \<Rightarrow> (string \<rightharpoonup> client) \<Rightarrow> Context
     \<Rightarrow> (string \<rightharpoonup> client) \<times> (error \<times> Context)" where
  "RateLimitMiddleware requestsPerMinute next now clients c =
     (let ip = IP c
      in case clients ip of
           Some cl \<Rightarrow>
             (let cl1 = (if now > resetTime cl
                         then cl\<lparr>requests := 0, resetTime := now + minute\<rparr> else cl)
              in if requests cl1 \<ge> requestsPerMinute
                 then (clients(ip \<mapsto> cl1),
                       AbortWithJSON 429 [''error'' \<mapsto> JStr ''Too many requests''] c)
                 else (clients(ip \<mapsto> cl1\<lparr>requests := requests cl1 + 1\<rparr>), next c))
         | None \<Rightarrow>
             (clients(ip \<mapsto> \<lparr>requests = 1, resetTime = now + minute\<rparr>), next c))"

section \<open>The service container (container.go)\<close>

text \<open>
  A resolver is Go code of type \<^verbatim>\<open>func(*Container) interface{}\<close>. A binding holds a
  handle \<open>'r\<close> of it, and \<open>run\<close> gives what calling it does: from the container it is
  handed and the rest of the program's state \<open>'w\<close> (the heap it allocates from) to the
  instance it returns and both afterwards.
\<close>

record 'r binding =
  resolver :: 'r
  singleton :: bool

record ('r, 'v) Container =
  bindings :: "string \<rightharpoonup> 'r binding"
  instances :: "string \<rightharpoonup> 'v"
  aliases :: "string \<rightharpoonup> string"

type_synonym ('r, 'v, 'w) resolve =
  "'r \<Rightarrow> ('r, 'v) Container \<Rightarrow> 'w \<Rightarrow> 'v \<times> ('r, 'v) Container \<times> 'w"

text \<open>
  The state a call of \<^verbatim>\<open>Make\<close> works on: the container, the rest of the program's
  state, and a log of the resolvers \<^verbatim>\<open>Make\<close> has invoked (the log is not in the source;
  it records each execution of line 86).
\<close>

type_synonym ('r, 'v, 'w) cstate = "('r, 'v) Container \<times> 'w \<times> 'r list"

definition NewContainer :: "('r, 'v) Container" where
  "NewContainer = \<lparr>bindings = Map.empty, instances = Map.empty, aliases = Map.empty\<rparr>"

definition Bind :: "string \<Rightarrow> 'r \<Rightarrow> ('r, 'v) Container \<Rightarrow> ('r, 'v) Container" where
  "Bind abstract r c =
     c\<lparr>bindings := (bindings c)(abstract \<mapsto> \<lparr>resolver = r, singleton = False\<rparr>)\<rparr>"

definition Singleton :: "string \<Rightarrow> 'r \<Rightarrow> ('r, 'v) Container \<Rightarrow> ('r, 'v) Container" where
  "Singleton abstract r c =
     c\<lparr>bindings := (bindings c)(abstract \<mapsto> \<lparr>resolver = r, singleton = True\<rparr>)\<rparr>"

definition Instance :: "string \<Rightarrow> 'v \<Rightarrow> ('r, 'v) Container \<Rightarrow> ('r, 'v) Container" where
  "Instance abstract v c = c\<lparr>instances := (instances c)(abstract \<mapsto> v)\<rparr>"

definition Alias :: "string \<Rightarrow> string \<Rightarrow> ('r, 'v) Container \<Rightarrow> ('r, 'v) Container" where
  "Alias alias abstract c = c\<lparr>aliases := (aliases c)(alias \<mapsto> abstract)\<rparr>"

text \<open>The name \<^verbatim>\<open>Make\<close> works with after its alias check (lines 67 to 69).\<close>

definition canonical :: "('r, 'v) Container \<Rightarrow> string \<Rightarrow> string" where
  "canonical c abstract = (case aliases c abstract of Some alias \<Rightarrow> alias | None \<Rightarrow> abstract)"

datatype cerror = BindingNotFound string

text \<open>\<^verbatim>\<open>Container.Make\<close>, run without interruption.\<close>

definition Make ::
  "('r, 'v, 'w) resolve \<Rightarrow> string \<Rightarrow> ('r, 'v, 'w) cstate
     \<Rightarrow> (cerror + 'v) \<times> ('r, 'v, 'w) cstate" where
  "Make run abstract s =
     (case s of (c, w, log) \<Rightarrow>
        (let abstract = canonical c abstract
         in case instances c abstract of
              Some inst \<Rightarrow> (Inr inst, s)
            | None \<Rightarrow>
                (case bindings c abstract of
                   None \<Rightarrow> (Inl (BindingNotFound abstract), s)
                 | Some bind \<Rightarrow>
                     (case run (resolver bind) c w of (inst, c', w') \<Rightarrow>
                        if singleton bind
                        then (Inr inst,
                              (c'\<lparr>instances := (instances c')(abstract \<mapsto> inst)\<rparr>, w',
                               log @ [resolver bind]))
                        else (Inr inst, (c', w', log @ [resolver bind]))))))"

subsection \<open>Concurrent callers of Make\<close>

text \<open>
  \<^verbatim>\<open>Make\<close> holds the mutex twice: the read lock from line 64 to line 79 (alias,
  instance and binding lookup), and the write lock on lines 90 to 92 (the store into
  \<^verbatim>\<open>instances\<close>). The resolver call on line 86 runs with no lock held. A goroutine
  inside \<^verbatim>\<open>Make\<close> is therefore at one of four points, and each move between them is
  atomic with respect to the container.
\<close>

datatype ('r, 'v) pc =
    Start string
  | Looked string "'r binding"
  | Resolved string "'r binding" 'v
  | Done "cerror + 'v"

fun makeStep ::
  "('r, 'v, 'w) resolve \<Rightarrow> ('r, 'v) pc \<Rightarrow> ('r, 'v, 'w) cstate
     \<Rightarrow> ('r, 'v) pc \<times> ('r, 'v, 'w) cstate" where
  "makeStep run (Start abstract) (c, w, log) =
     (let abstract = canonical c abstract
      in case instances c abstract of
           Some inst \<Rightarrow> (Done (Inr inst), (c, w, log))
         | None \<Rightarrow>
             (case bindings c abstract of
                None \<Rightarrow> (Done (Inl (BindingNotFound abstract)), (c, w, log))
              | Some bind \<Rightarrow> (Looked abstract bind, (c, w, log))))"
| "makeStep run (Looked abstract bind) (c, w, log) =
     (case run (resolver bind) c w of (inst, c', w') \<Rightarrow>
        (if singleton bind then Resolved abstract bind inst else Done (Inr inst),
         (c', w', log @ [resolver bind])))"
| "makeStep run (Resolved abstract bind inst) (c, w, log) =
     (Done (Inr inst), (c\<lparr>instances := (instances c)(abstract \<mapsto> inst)\<rparr>, w, log))"
| "makeStep run (Done res) s = (Done res, s)"

text \<open>
  A schedule names, step by step, the goroutine that moves next.
\<close>

definition schedStep ::
  "('r, 'v, 'w) resolve \<Rightarrow> nat \<Rightarrow> ('r, 'v) pc list \<times> ('r, 'v, 'w) cstate
     \<Rightarrow> ('r, 'v) pc list \<times> ('r, 'v, 'w) cstate" where
  "schedStep run i cfg =
     (case cfg of (pcs, s) \<Rightarrow>
        if i < length pcs
        then (case makeStep run (pcs ! i) s of (pc', s') \<Rightarrow> (pcs[i := pc'], s'))
        else cfg)"

definition runSchedule ::
  "('r, 'v, 'w) resolve \<Rightarrow> nat list \<Rightarrow> ('r, 'v) pc list \<times> ('r, 'v, 'w) cstate
     \<Rightarrow> ('r, 'v) pc list \<times> ('r, 'v, 'w) cstate" where
  "runSchedule run sched cfg = fold (schedStep run) sched cfg"

section \<open>Concrete inputs\<close>

text \<open>
  A resolver that allocates: the program state is the next free object identity, and
  each call returns that identity and moves on. The container it is handed is left as
  it is.
\<close>

definition counterResolve :: "(nat, nat, nat) resolve" where
  "counterResolve r c w = (w, c, Suc w)"

text \<open>
  A container with a singleton binding \<open>database\<close> that already has the instance 7, and
  the alias \<open>db\<close> for it.
\<close>

definition exampleContainer :: "(nat, nat) Container" where
  "exampleContainer =
     Alias ''db'' ''database'' (Instance ''database'' 7 (Singleton ''database'' 0 NewContainer))"

text \<open>A container with one singleton binding, and one with one transient binding.\<close>

definition singletonContainer :: "(nat, nat) Container" where
  "singletonContainer = Singleton ''svc'' 0 NewContainer"

definition transientContainer :: "(nat, nat) Container" where
  "transientContainer = Bind ''req'' 1 NewContainer"

section \<open>Notions the claims use\<close>

text \<open>
  The standard failure envelope is what \<^verbatim>\<open>Context.Error\<close> writes: an object whose
  \<open>success\<close> member is false and whose \<open>error\<close> member is a string.
\<close>

definition failureEnvelope :: "Map option \<Rightarrow> bool" where
  "failureEnvelope b =
     (case b of
        None \<Rightarrow> False
      | Some m \<Rightarrow>
          m ''success'' = Some (JBool False)
          \<and> (case m ''error'' of Some (JStr msg) \<Rightarrow> True | _ \<Rightarrow> False))"

text \<open>
  The claim about the content-type gate speaks of mutating methods, "any method other
  than a safe read", and of the required content type. Following those words: the safe
  reads are the methods HTTP defines as safe, and the required type is
  \<^verbatim>\<open>application/json\<close>.
\<close>

definition claimedSafeRead :: "string \<Rightarrow> bool" where
  "claimedSafeRead m = (m = ''GET'' \<or> m = ''HEAD'' \<or> m = ''OPTIONS'' \<or> m = ''TRACE'')"

definition claimedMutating :: "string \<Rightarrow> bool" where
  "claimedMutating m = (\<not> claimedSafeRead m)"

text \<open>
  A sequence of requests through one instance of the rate limiter: each request comes
  with the clock reading at its arrival, the client map is carried from one to the
  next, and the responses are collected.
\<close>

fun serveAll ::
  "int \<Rightarrow> HandlerFunc \<Rightarrow> (string \<rightharpoonup> client) \<Rightarrow> (int \<times> Context) list
     \<Rightarrow> (string \<rightharpoonup> client) \<times> (error \<times> Context) list" where
  "serveAll n next clients [] = (clients, [])"
| "serveAll n next clients ((now, c) # rest) =
     (case RateLimitMiddleware n next now clients c of
        (clients', resp) \<Rightarrow>
          (case serveAll n next clients' rest of
             (clients'', resps) \<Rightarrow> (clients'', resp # resps)))"

definition tooMany :: "Context \<Rightarrow> error \<times> Context" where
  "tooMany c = AbortWithJSON 429 [''error'' \<mapsto> JStr ''Too many requests''] c"

section \<open>Concrete requests, handlers and routers\<close>

definition request :: "string \<Rightarrow> string \<Rightarrow> Context" where
  "request m p =
     \<lparr>reqMethod = m, reqPath = p, reqHeaders = Map.empty, remoteIP = ''10.0.0.1'',
      statusCode = 200, contentType = [], body = None, params = Map.empty, route = None,
      store = Map.empty\<rparr>"

text \<open>A handler that records its name in the context's store and returns no error.\<close>

definition tagHandler :: "string \<Rightarrow> HandlerFunc" where
  "tagHandler t c = (None, Set ''handler'' (JStr t) c)"

text \<open>A router with \<^verbatim>\<open>POST /users\<close> and \<^verbatim>\<open>GET /other\<close>.\<close>

definition postUsersRouter :: RouterStore where
  "postUsersRouter =
     (case Add 0 ''POST'' ''/users'' (tagHandler ''store'') NewRouter of
        None \<Rightarrow> NewRouter
      | Some (r1, st1) \<Rightarrow>
          (case Add 0 ''GET'' ''/other'' (tagHandler ''other'') st1 of
             None \<Rightarrow> st1
           | Some (r2, st2) \<Rightarrow> st2))"

text \<open>Two requests that declare the content type \<^verbatim>\<open>text/plain\<close>.\<close>

definition deleteRequest :: Context where
  "deleteRequest =
     (request ''DELETE'' ''/users/7'')\<lparr>reqHeaders := [''Content-Type'' \<mapsto> ''text/plain'']\<rparr>"

definition postRequest :: Context where
  "postRequest =
     (request ''POST'' ''/users'')\<lparr>reqHeaders := [''Content-Type'' \<mapsto> ''text/plain'']\<rparr>"

text \<open>Reading a route through its pointer.\<close>

definition lookupRoute :: "RouterStore \<Rightarrow> (string \<times> nat) \<Rightarrow> Route option" where
  "lookupRoute st ref =
     (case routes st (fst ref) of
        None \<Rightarrow> None
      | Some rs \<Rightarrow> if snd ref < length rs then Some (rs ! snd ref) else None)"

text \<open>
  The router of the spec's example: \<^verbatim>\<open>GET /users/{id}\<close> registered first, then
  \<^verbatim>\<open>GET /users/me\<close>.
\<close>

definition usersRouter :: RouterStore where
  "usersRouter =
     (case Add 0 ''GET'' ''/users/{id}'' (tagHandler ''show'') NewRouter of
        None \<Rightarrow> NewRouter
      | Some (r1, st1) \<Rightarrow>
          (case Add 0 ''GET'' ''/users/me'' (tagHandler ''me'') st1 of
             None \<Rightarrow> st1
           | Some (r2, st2) \<Rightarrow> st2))"

text \<open>
  A middleware and a handler that write to a shared ordered log, kept in the context's
  store under the key \<open>log\<close>: the middleware writes its name before and after it calls
  the next handler.
\<close>

definition logAppend :: "string \<Rightarrow> Context \<Rightarrow> Context" where
  "logAppend t c = Set ''log'' (JStr (GetString c ''log'' @ t)) c"

definition trace :: "string \<Rightarrow> MiddlewareFunc" where
  "trace t next c = (case next (logAppend (t @ ''-before '') c) of
                       (e, c') \<Rightarrow> (e, logAppend (t @ ''-after '') c'))"

definition tracedHandler :: HandlerFunc where
  "tracedHandler c = (None, logAppend ''handler '' c)"

text \<open>
  An application with one global middleware, one middleware on the root router, and a
  group \<^verbatim>\<open>/api\<close> whose callback gives the group a middleware and registers
  \<^verbatim>\<open>GET /x\<close> with a middleware of its own.
\<close>

definition apiGroup :: "nat \<Rightarrow> RouterStore \<Rightarrow> RouterStore option" where
  "apiGroup g st =
     (case Add g ''GET'' ''/x'' tracedHandler (Router_Middleware g [trace ''group''] st) of
        None \<Rightarrow> None
      | Some (ref, st') \<Rightarrow> Some (Route_Middleware ref [trace ''route''] st'))"

definition groupedApp :: Application where
  "groupedApp =
     Use [trace ''global'']
       \<lparr>router = (case Group 0 ''/api'' apiGroup (Router_Middleware 0 [trace ''root''] NewRouter) of
                    None \<Rightarrow> NewRouter
                  | Some (g, st) \<Rightarrow> st),
        appMiddleware = []\<rparr>"

section \<open>Route templates, as the claims about matching describe them\<close>

text \<open>
  A template in the documented syntax is literal text with tokens \<^verbatim>\<open>{name}\<close> and
  \<^verbatim>\<open>{name?}\<close>. \<open>render\<close> writes it as the path string handed to \<^verbatim>\<open>Add\<close>; \<open>subst\<close>
  builds a concrete path by putting a value in the place of each token, nothing in the
  place of an optional token that is left out.
\<close>

datatype seg = Lit string | Req string | Opt string

fun renderSeg :: "seg \<Rightarrow> string" where
  "renderSeg (Lit s) = s"
| "renderSeg (Req n) = ''{'' @ n @ ''}''"
| "renderSeg (Opt n) = ''{'' @ n @ ''?}''"

definition render :: "seg list \<Rightarrow> string" where
  "render segs = concat (map renderSeg segs)"

definition valueOf :: "(string \<rightharpoonup> string) \<Rightarrow> string \<Rightarrow> string" where
  "valueOf vals n = (case vals n of None \<Rightarrow> [] | Some v \<Rightarrow> v)"

fun substSeg :: "(string \<rightharpoonup> string) \<Rightarrow> seg \<Rightarrow> string" where
  "substSeg vals (Lit s) = s"
| "substSeg vals (Req n) = valueOf vals n"
| "substSeg vals (Opt n) = valueOf vals n"

definition subst :: "(string \<rightharpoonup> string) \<Rightarrow> seg list \<Rightarrow> string" where
  "subst vals segs = concat (map (substSeg vals) segs)"

fun reqNames :: "seg list \<Rightarrow> string list" where
  "reqNames [] = []"
| "reqNames (Req n # segs) = n # reqNames segs"
| "reqNames (s # segs) = reqNames segs"

fun optNames :: "seg list \<Rightarrow> string list" where
  "optNames [] = []"
| "optNames (Opt n # segs) = n # optNames segs"
| "optNames (s # segs) = optNames segs"

fun allNames :: "seg list \<Rightarrow> string list" where
  "allNames [] = []"
| "allNames (Lit s # segs) = allNames segs"
| "allNames (Req n # segs) = n # allNames segs"
| "allNames (Opt n # segs) = n # allNames segs"

text \<open>
  Well-formed: the literal text has no regexp metacharacter (so no brace either), and a
  name is a non-empty word.
\<close>

fun wfSeg :: "seg \<Rightarrow> bool" where
  "wfSeg (Lit s) = list_all plain s"
| "wfSeg (Req n) = (n \<noteq> [] \<and> list_all isWordChar n)"
| "wfSeg (Opt n) = (n \<noteq> [] \<and> list_all isWordChar n)"

definition wfTemplate :: "seg list \<Rightarrow> bool" where
  "wfTemplate segs = list_all wfSeg segs"

text \<open>Optional tokens in trailing position: no required token comes after an optional one.\<close>

fun optionalsLast :: "seg list \<Rightarrow> bool" where
  "optionalsLast [] = True"
| "optionalsLast (Opt n # segs) = (reqNames segs = [] \<and> optionalsLast segs)"
| "optionalsLast (s # segs) = optionalsLast segs"

text \<open>
  No two tokens in one path segment: between two tokens the literal text has a
  separator. The flag says whether a token has occurred since the last separator.
\<close>

fun tokensApart :: "bool \<Rightarrow> seg list \<Rightarrow> bool" where
  "tokensApart f [] = True"
| "tokensApart f (Lit s # segs) = tokensApart (f \<and> CHR ''/'' \<notin> set s) segs"
| "tokensApart f (t # segs) = (\<not> f \<and> tokensApart True segs)"

definition oneTokenPerSegment :: "seg list \<Rightarrow> bool" where
  "oneTokenPerSegment segs = tokensApart False segs"

text \<open>A literal value for a token: not empty and free of the separator.\<close>

definition literalValue :: "string \<Rightarrow> bool" where
  "literalValue v = (v \<noteq> [] \<and> CHR ''/'' \<notin> set v)"

text \<open>The compiled program a well-formed template should give.\<close>

fun segInsts :: "seg \<Rightarrow> regexp" where
  "segInsts (Lit s) = map Chr s"
| "segInsts (Req n) = [ReqCap]"
| "segInsts (Opt n) = [OptCap]"

definition insts :: "seg list \<Rightarrow> regexp" where
  "insts segs = concat (map segInsts segs)"

text \<open>The template's text after the first and after the second replacement pass.\<close>

fun afterRequired :: "seg \<Rightarrow> string" where
  "afterRequired (Lit s) = s"
| "afterRequired (Req n) = reqText"
| "afterRequired (Opt n) = ''{'' @ n @ ''?}''"

fun afterOptional :: "seg \<Rightarrow> string" where
  "afterOptional (Lit s) = s"
| "afterOptional (Req n) = reqText"
| "afterOptional (Opt n) = optText"

section \<open>Notions for the proofs about matching\<close>

text \<open>
  The capture groups of a compiled program, in order, and what every reported capture
  satisfies: no separator in it, and not empty when the group is a required one.
\<close>

fun capKinds :: "regexp \<Rightarrow> inst list" where
  "capKinds [] = []"
| "capKinds (Chr c # is) = capKinds is"
| "capKinds (i # is) = i # capKinds is"

definition capOK :: "inst \<Rightarrow> string \<Rightarrow> bool" where
  "capOK i v = (CHR ''/'' \<notin> set v \<and> (i = ReqCap \<longrightarrow> v \<noteq> []))"

text \<open>
  The loop of \<^verbatim>\<open>Route.Match\<close> seen on pairs of a name and its submatch: an empty
  submatch binds nothing.
\<close>

definition bindParams :: "(string \<times> string) list \<Rightarrow> (string \<rightharpoonup> string) \<Rightarrow> (string \<rightharpoonup> string)" where
  "bindParams prs ps = fold (\<lambda>(nm, v) ps. if v \<noteq> [] then ps(nm \<mapsto> v) else ps) prs ps"

text \<open>
  The literal characters a program starts with, up to its first separator or capture,
  and the program after them.
\<close>

fun lead :: "regexp \<Rightarrow> string" where
  "lead (Chr c # re) = (if c = CHR ''/'' then [] else c # lead re)"
| "lead re = []"

fun afterLead :: "regexp \<Rightarrow> regexp" where
  "afterLead (Chr c # re) = (if c = CHR ''/'' then Chr c # re else afterLead re)"
| "afterLead re = re"

text \<open>
  The values fit the template: every required token has a literal value, every
  optional token has a literal value or none.
\<close>

fun valuesFit :: "(string \<rightharpoonup> string) \<Rightarrow> seg list \<Rightarrow> bool" where
  "valuesFit vals [] = True"
| "valuesFit vals (Lit s # segs) = valuesFit vals segs"
| "valuesFit vals (Req n # segs) = (literalValue (valueOf vals n) \<and> valuesFit vals segs)"
| "valuesFit vals (Opt n # segs) =
     ((vals n = None \<or> literalValue (valueOf vals n)) \<and> valuesFit vals segs)"

section \<open>Concrete templates\<close>

text \<open>
  \<^verbatim>\<open>GET /{x?}/{y}\<close>, an optional token before a required one; \<^verbatim>\<open>GET /{a}-{b}\<close>, two
  tokens in one path segment; \<^verbatim>\<open>GET /users/{id}/posts/{pid?}\<close>, the documented shape.
\<close>

definition optionalFirstRouter :: RouterStore where
  "optionalFirstRouter =
     (case Add 0 ''GET'' ''/{x?}/{y}'' (tagHandler ''xy'') NewRouter of
        None \<Rightarrow> NewRouter
      | Some (r1, st1) \<Rightarrow> st1)"

definition dashRouter :: RouterStore where
  "dashRouter =
     (case Add 0 ''GET'' ''/{a}-{b}'' (tagHandler ''ab'') NewRouter of
        None \<Rightarrow> NewRouter
      | Some (r1, st1) \<Rightarrow> st1)"

definition postsTemplate :: "seg list" where
  "postsTemplate = [Lit ''/users/'', Req ''id'', Lit ''/posts/'', Opt ''pid'']"

definition postsRouter :: RouterStore where
  "postsRouter =
     (case Add 0 ''GET'' (render postsTemplate) (tagHandler ''posts'') NewRouter of
        None \<Rightarrow> NewRouter
      | Some (r1, st1) \<Rightarrow> st1)"

definition dashTemplate :: "seg list" where
  "dashTemplate = [Lit ''/'', Req ''a'', Lit ''-'', Req ''b'']"

section \<open>Container resolution\<close>

lemma Make_cached:
  "instances c (canonical c abstract) = Some inst \<Longrightarrow>
     Make run abstract (c, w, log) = (Inr inst, (c, w, log))"
  by (simp add: Make_def)

lemma Make_unbound:
  "instances c (canonical c abstract) = None \<Longrightarrow> bindings c (canonical c abstract) = None \<Longrightarrow>
     Make run abstract (c, w, log) = (Inl (BindingNotFound (canonical c abstract)), (c, w, log))"
  by (simp add: Make_def)

lemma Make_resolve:
  "instances c (canonical c abstract) = None \<Longrightarrow> bindings c (canonical c abstract) = Some b \<Longrightarrow>
   run (resolver b) c w = (inst, c', w') \<Longrightarrow>
     Make run abstract (c, w, log) =
       (Inr inst,
        (if singleton b then c'\<lparr>instances := (instances c')(canonical c abstract \<mapsto> inst)\<rparr>
         else c',
         w', log @ [resolver b]))"
  by (simp add: Make_def)

text \<open>
  Claim C8. \<^verbatim>\<open>Make\<close> first replaces the name by its alias, if it has one. With \<open>n\<close> the
  name after that step: when an instance is cached under \<open>n\<close>, \<^verbatim>\<open>Make\<close> returns it and
  changes nothing, the log of resolver invocations included; when neither an instance
  nor a binding exists under \<open>n\<close>, \<^verbatim>\<open>Make\<close> fails with the binding-not-found error for
  \<open>n\<close>, again changing nothing.
\<close>

theorem Make_alias_cache_notfound:
  assumes "n = (case aliases c abstract of Some alias \<Rightarrow> alias | None \<Rightarrow> abstract)"
  shows "(instances c n = Some inst \<longrightarrow>
            Make run abstract (c, w, log) = (Inr inst, (c, w, log)))
       \<and> (instances c n = None \<longrightarrow> bindings c n = None \<longrightarrow>
            Make run abstract (c, w, log) = (Inl (BindingNotFound n), (c, w, log)))"
  using assms Make_cached [of c abstract inst run w log] Make_unbound [of c abstract run w log]
  by (simp add: canonical_def)

theorem Make_alias_cache_notfound_witness:
  "Make counterResolve ''db'' (exampleContainer, 3, []) = (Inr 7, (exampleContainer, 3, []))
   \<and> Make counterResolve ''cache'' (exampleContainer, 3, [])
       = (Inl (BindingNotFound ''cache''), (exampleContainer, 3, []))"
proof -
  have a: "''database''
             = (case aliases exampleContainer ''db'' of Some alias \<Rightarrow> alias | None \<Rightarrow> ''db'')"
    by (simp add: exampleContainer_def Alias_def Instance_def Singleton_def NewContainer_def)
  have b: "''cache''
             = (case aliases exampleContainer ''cache'' of Some alias \<Rightarrow> alias | None \<Rightarrow> ''cache'')"
    by (simp add: exampleContainer_def Alias_def Instance_def Singleton_def NewContainer_def)
  have i: "instances exampleContainer ''database'' = Some 7"
    by (simp add: exampleContainer_def Alias_def Instance_def Singleton_def NewContainer_def)
  have j: "instances exampleContainer ''cache'' = None"
    "bindings exampleContainer ''cache'' = None"
    by (simp_all add: exampleContainer_def Alias_def Instance_def Singleton_def NewContainer_def)
  from Make_alias_cache_notfound [OF a, of 7 counterResolve 3 "[]"] i
  have 1: "Make counterResolve ''db'' (exampleContainer, 3, [])
             = (Inr 7, (exampleContainer, 3, []))"
    by simp
  from Make_alias_cache_notfound [OF b, of 0 counterResolve 3 "[]"] j
  have 2: "Make counterResolve ''cache'' (exampleContainer, 3, [])
             = (Inl (BindingNotFound ''cache''), (exampleContainer, 3, []))"
    by simp
  from 1 2 show ?thesis by simp
qed

lemma Singleton_binding:
  "bindings (Singleton n r c) n = Some \<lparr>resolver = r, singleton = True\<rparr>"
  "instances (Singleton n r c) = instances c" "aliases (Singleton n r c) = aliases c"
  by (simp_all add: Singleton_def)

lemma Bind_binding:
  "bindings (Bind n r c) n = Some \<lparr>resolver = r, singleton = False\<rparr>"
  "instances (Bind n r c) = instances c" "aliases (Bind n r c) = aliases c"
  by (simp_all add: Bind_def)

lemma Make_singleton_twice:
  assumes n: "canonical c abstract = n"
    and b: "bindings c n = Some \<lparr>resolver = r, singleton = True\<rparr>"
    and r1: "run r c w = (v1, c1, w1)"
    and al: "aliases c1 abstract = aliases c abstract"
    and m1: "Make run abstract (c, w, log) = (res1, s1)"
    and m2: "Make run abstract s1 = (res2, s2)"
  shows "res2 = res1 \<and> (\<exists>v. res1 = Inr v) \<and> (snd (snd s2) = log \<or> snd (snd s2) = log @ [r])"
proof (cases "instances c n")
  case (Some inst)
  with n m1 have "res1 = Inr inst" "s1 = (c, w, log)"
    using Make_cached [of c abstract inst run w log] by simp_all
  moreover from this Some n m2 have "res2 = Inr inst" "s2 = (c, w, log)"
    using Make_cached [of c abstract inst run w log] by simp_all
  ultimately show ?thesis by simp
next
  case None
  let ?c' = "c1\<lparr>instances := (instances c1)(n \<mapsto> v1)\<rparr>"
  from None n b r1 m1 have 1: "res1 = Inr v1" "s1 = (?c', w1, log @ [r])"
    using Make_resolve [of c abstract "\<lparr>resolver = r, singleton = True\<rparr>" run w v1 c1 w1 log]
    by simp_all
  from al n have "canonical ?c' abstract = n"
    by (simp add: canonical_def)
  then have "instances ?c' (canonical ?c' abstract) = Some v1" by simp
  from Make_cached [OF this, of run w1 "log @ [r]"] m2 1
  have "res2 = Inr v1" "s2 = (?c', w1, log @ [r])" by simp_all
  with 1 show ?thesis by simp
qed

lemma Make_transient_twice:
  assumes n: "canonical c abstract = n"
    and b: "bindings c n = Some \<lparr>resolver = r, singleton = False\<rparr>"
    and i: "instances c n = None"
    and r1: "run r c w = (v1, c1, w1)"
    and al: "aliases c1 abstract = aliases c abstract"
    and i1: "instances c1 n = None"
    and b1: "bindings c1 n = bindings c n"
    and r2: "run r c1 w1 = (v2, c2, w2)"
    and m1: "Make run abstract (c, w, log) = (res1, s1)"
    and m2: "Make run abstract s1 = (res2, s2)"
  shows "res1 = Inr v1 \<and> res2 = Inr v2 \<and> snd (snd s1) = log @ [r] \<and> snd (snd s2) = log @ [r, r]"
proof -
  from n b i r1 m1 have 1: "res1 = Inr v1" "s1 = (c1, w1, log @ [r])"
    using Make_resolve [of c abstract "\<lparr>resolver = r, singleton = False\<rparr>" run w v1 c1 w1 log]
    by simp_all
  from al n have n1: "canonical c1 abstract = n"
    by (simp add: canonical_def)
  from n1 i1 b1 b r2 m2 1 have "res2 = Inr v2" "s2 = (c2, w2, (log @ [r]) @ [r])"
    using Make_resolve [of c1 abstract "\<lparr>resolver = r, singleton = False\<rparr>" run w1 v2 c2 w2 "log @ [r]"]
    by simp_all
  with 1 show ?thesis by simp
qed

text \<open>
  Claim C7. Let \<open>n\<close> be the name \<^verbatim>\<open>Make\<close> works with for \<open>abstract\<close> (its alias, or
  itself), and let the resolver leave the alias entry of \<open>abstract\<close> as it is. If \<open>n\<close>
  was registered with \<^verbatim>\<open>Singleton\<close>, two calls of \<^verbatim>\<open>Make\<close> in a row return the same
  instance and the log of resolver invocations grows by at most one entry. If \<open>n\<close> was
  registered with \<^verbatim>\<open>Bind\<close>, no instance is cached under \<open>n\<close> and the resolver leaves the
  entries of \<open>n\<close> as they are, each of the two calls invokes the resolver and returns what
  that invocation returned: distinct instances when the resolver's two results differ.
\<close>

theorem Make_twice:
  assumes n: "canonical c abstract = n"
    and r1: "run r c w = (v1, c1, w1)"
    and al: "aliases c1 abstract = aliases c abstract"
    and m1: "Make run abstract (c, w, log) = (res1, s1)"
    and m2: "Make run abstract s1 = (res2, s2)"
  shows "(c = Singleton n r c0 \<longrightarrow>
            res2 = res1 \<and> (\<exists>v. res1 = Inr v) \<and> (snd (snd s2) = log \<or> snd (snd s2) = log @ [r]))
       \<and> (c = Bind n r c0 \<longrightarrow> instances c n = None \<longrightarrow> instances c1 n = None \<longrightarrow>
            bindings c1 n = bindings c n \<longrightarrow> run r c1 w1 = (v2, c2, w2) \<longrightarrow>
              res1 = Inr v1 \<and> res2 = Inr v2 \<and> snd (snd s1) = log @ [r]
              \<and> snd (snd s2) = log @ [r, r] \<and> (v1 \<noteq> v2 \<longrightarrow> res1 \<noteq> res2))"
proof (intro conjI impI)
  assume c: "c = Singleton n r c0"
  then have "bindings c n = Some \<lparr>resolver = r, singleton = True\<rparr>"
    by (simp add: Singleton_binding)
  from Make_singleton_twice [OF n this r1 al m1 m2]
  show "res2 = res1" "\<exists>v. res1 = Inr v" "snd (snd s2) = log \<or> snd (snd s2) = log @ [r]"
    by simp_all
next
  assume c: "c = Bind n r c0" and h: "instances c n = None" "instances c1 n = None"
    "bindings c1 n = bindings c n" "run r c1 w1 = (v2, c2, w2)"
  from c have "bindings c n = Some \<lparr>resolver = r, singleton = False\<rparr>"
    by (simp add: Bind_binding)
  from Make_transient_twice [OF n this h(1) r1 al h(2) h(3) h(4) m1 m2]
  show "res1 = Inr v1" "res2 = Inr v2" "snd (snd s1) = log @ [r]" "snd (snd s2) = log @ [r, r]"
    by simp_all
  then show "res1 \<noteq> res2" if "v1 \<noteq> v2" using that by simp
qed

theorem Make_twice_witness:
  "Make counterResolve ''svc'' (singletonContainer, 3, [])
     = (Inr 3, (Instance ''svc'' 3 singletonContainer, 4, [0]))
   \<and> Make counterResolve ''svc'' (Instance ''svc'' 3 singletonContainer, 4, [0])
     = (Inr 3, (Instance ''svc'' 3 singletonContainer, 4, [0]))
   \<and> Make counterResolve ''req'' (transientContainer, 3, []) = (Inr 3, (transientContainer, 4, [1]))
   \<and> Make counterResolve ''req'' (transientContainer, 4, [1])
     = (Inr 4, (transientContainer, 5, [1, 1]))"
proof -
  note ex = Let_def singletonContainer_def transientContainer_def Singleton_def Bind_def
    NewContainer_def counterResolve_def canonical_def Make_def Instance_def
  have a: "Make counterResolve ''svc'' (singletonContainer, 3, [])
             = (Inr 3, (Instance ''svc'' 3 singletonContainer, 4, [0]))"
    by (simp add: ex)
  have b: "Make counterResolve ''svc'' (Instance ''svc'' 3 singletonContainer, 4, [0])
             = (Inr 3, (Instance ''svc'' 3 singletonContainer, 4, [0]))"
    by (simp add: ex)
  have c: "Make counterResolve ''req'' (transientContainer, 3, [])
             = (Inr 3, (transientContainer, 4, [1]))"
    by (simp add: ex)
  have d: "Make counterResolve ''req'' (transientContainer, 4, [1])
             = (Inr 4, (transientContainer, 5, [1, 1]))"
    by (simp add: ex)
  have r1: "counterResolve 0 singletonContainer 3 = (3, singletonContainer, 4)"
    and r2: "counterResolve 1 transientContainer 3 = (3, transientContainer, 4)"
    by (simp_all add: counterResolve_def)
  have n1: "canonical singletonContainer ''svc'' = ''svc''"
    and n2: "canonical transientContainer ''req'' = ''req''"
    by (simp_all add: ex)
  from Make_twice [OF n1 r1 _ a b, of NewContainer]
  have s: "snd (snd (Instance ''svc'' 3 singletonContainer, 4 :: nat, [0 :: nat])) = [0]"
    by (simp add: singletonContainer_def)
  from Make_twice [OF n2 r2 _ c d, of NewContainer 4 transientContainer 5]
  have t: "(Inr 3 :: cerror + nat) \<noteq> Inr 4"
    by (simp add: ex)
  from s t a b c d show ?thesis by simp
qed

section \<open>Evaluation rules for concrete inputs\<close>

lemmas compile_eval =
  compile_def compilePattern_def matchAt_def isWordChar_def Trim_def closing_def
  MustCompile_def reqText_def optText_def plain_def metachars_def Let_def

lemmas match_eval = Match_def FindStringSubmatch_def segLen_def enumerate_eq_zip

lemmas ctx_eval =
  notFound_def JSON_def Status_def AbortWithJSON_def Set_def Header_def Method_def Path_def
  IP_def GetString_def

lemmas add_eval = Add_def NewRouter_def ToUpper_def upperChar_def

section \<open>Dispatch: no matching route\<close>

lemma scanRoutes_no_match:
  "\<forall>rt \<in> set rs. Match rt (reqPath c) = None \<Longrightarrow> scanRoutes r m rs i c = notFound c"
  by (induction rs arbitrary: i) simp_all

lemma postUsersRouter_routes:
  "routes postUsersRouter ''POST''
     = Some [\<lparr>routeMethod = ''POST'', path = ''/users'', handler = tagHandler ''store'',
              middleware = [], name = [], pattern = map Chr ''/users'', paramNames = []\<rparr>]"
  "routes postUsersRouter ''GET''
     = Some [\<lparr>routeMethod = ''GET'', path = ''/other'', handler = tagHandler ''other'',
              middleware = [], name = [], pattern = map Chr ''/other'', paramNames = []\<rparr>]"
  by (simp_all add: postUsersRouter_def add_eval compile_eval)

text \<open>The body \<^verbatim>\<open>Context.Error\<close> writes is a failure envelope.\<close>

lemma Error_writes_envelope: "failureEnvelope (body (snd (Error message code c)))"
  by (simp add: Error_def JSON_def Status_def failureEnvelope_def)

text \<open>
  Claim C3, as stated, fails. With \<^verbatim>\<open>POST /users\<close> and \<^verbatim>\<open>GET /other\<close> registered, no
  route of the \<open>GET\<close> bucket matches \<^verbatim>\<open>/users\<close>; \<^verbatim>\<open>Handle\<close> answers 404, and the body is
  the object with the single member \<open>error\<close>, which is not the failure envelope: it has
  no \<open>success\<close> member.
\<close>

theorem Handle_envelope_counterexample:
  "list_all (\<lambda>rt. Match rt ''/users'' = None)
     (case routes postUsersRouter ''GET'' of None \<Rightarrow> [] | Some rs \<Rightarrow> rs)
   \<and> statusCode (snd (Handle postUsersRouter 0 (request ''GET'' ''/users''))) = 404
   \<and> body (snd (Handle postUsersRouter 0 (request ''GET'' ''/users'')))
       = Some [''error'' \<mapsto> JStr ''Not Found'']
   \<and> \<not> failureEnvelope (body (snd (Handle postUsersRouter 0 (request ''GET'' ''/users''))))"
  by (simp add: Handle_def postUsersRouter_routes request_def match_eval ctx_eval
      failureEnvelope_def)

text \<open>
  Claim C3, amended. Whenever no route in the bucket of the request's method matches
  the request's path (in particular when the method has no bucket), \<^verbatim>\<open>Handle\<close> returns
  no error and leaves the context with status 404, content type \<^verbatim>\<open>application/json\<close>
  and the body \<^verbatim>\<open>{"error": "Not Found"}\<close>. The buckets of the other methods play no
  part, so this holds when another method has a route at the same path.
\<close>

theorem Handle_not_found:
  assumes "\<forall>rt \<in> set (case routes st (reqMethod c) of None \<Rightarrow> [] | Some rs \<Rightarrow> rs).
             Match rt (reqPath c) = None"
  shows "Handle st r c
           = (None, c\<lparr>statusCode := 404, contentType := ''application/json'',
                      body := Some [''error'' \<mapsto> JStr ''Not Found'']\<rparr>)"
proof (cases "routes st (reqMethod c)")
  case None
  then show ?thesis by (simp add: Handle_def notFound_def JSON_def Status_def)
next
  case (Some rs)
  with assms have "scanRoutes (routers st ! r) (reqMethod c) rs 0 c = notFound c"
    by (simp add: scanRoutes_no_match)
  with Some show ?thesis by (simp add: Handle_def notFound_def JSON_def Status_def)
qed

theorem Handle_not_found_witness:
  "Match (hd (the (routes postUsersRouter ''POST''))) ''/users'' = Some Map.empty
   \<and> Handle postUsersRouter 0 (request ''GET'' ''/users'')
       = (None, (request ''GET'' ''/users'')\<lparr>statusCode := 404,
                  contentType := ''application/json'',
                  body := Some [''error'' \<mapsto> JStr ''Not Found'']\<rparr>)"
proof -
  have "\<forall>rt \<in> set (case routes postUsersRouter (reqMethod (request ''GET'' ''/users'')) of
                      None \<Rightarrow> [] | Some rs \<Rightarrow> rs).
          Match rt (reqPath (request ''GET'' ''/users'')) = None"
    by (simp add: postUsersRouter_routes request_def match_eval)
  from Handle_not_found [OF this]
  have "Handle postUsersRouter 0 (request ''GET'' ''/users'')
       = (None, (request ''GET'' ''/users'')\<lparr>statusCode := 404,
                  contentType := ''application/json'',
                  body := Some [''error'' \<mapsto> JStr ''Not Found'']\<rparr>)" .
  moreover have "Match (hd (the (routes postUsersRouter ''POST''))) ''/users'' = Some Map.empty"
    by (simp add: postUsersRouter_routes match_eval)
  ultimately show ?thesis by simp
qed

section \<open>The content-type gate\<close>

text \<open>
  Claim C4, as stated, fails. \<open>DELETE\<close> is not a safe read, and the request declares
  \<^verbatim>\<open>text/plain\<close>; the gate still hands it to the downstream handler, which runs, and
  the status stays 200.
\<close>

theorem JSONOnly_delete_counterexample:
  "claimedMutating (Method deleteRequest)
   \<and> Header deleteRequest ''Content-Type'' \<noteq> ''application/json''
   \<and> JSONOnlyMiddleware (tagHandler ''destroy'') deleteRequest
       = tagHandler ''destroy'' deleteRequest
   \<and> statusCode (snd (JSONOnlyMiddleware (tagHandler ''destroy'') deleteRequest)) = 200
   \<and> store (snd (JSONOnlyMiddleware (tagHandler ''destroy'') deleteRequest)) ''handler''
       = Some (JStr ''destroy'')"
  by (simp add: claimedMutating_def claimedSafeRead_def deleteRequest_def request_def
      JSONOnlyMiddleware_def tagHandler_def ctx_eval)

text \<open>
  Claim C4, amended. For every request whose method is neither \<open>GET\<close> nor \<open>DELETE\<close> and
  whose \<^verbatim>\<open>Content-Type\<close> header does not contain \<^verbatim>\<open>application/json\<close>, the gate answers
  415 with a JSON error body, whatever the downstream handler is (it is not invoked).
  Every other request, \<open>DELETE\<close> included, is handed to the downstream handler.
\<close>

theorem JSONOnly_gate:
  "(Method c \<noteq> ''GET'' \<and> Method c \<noteq> ''DELETE''
      \<and> \<not> Contains (Header c ''Content-Type'') ''application/json''
      \<longrightarrow> JSONOnlyMiddleware next c
            = (None, c\<lparr>statusCode := 415, contentType := ''application/json'',
                        body := Some [''error'' \<mapsto> JStr ''Content-Type must be application/json'']\<rparr>))
   \<and> (Method c = ''GET'' \<or> Method c = ''DELETE''
      \<or> Contains (Header c ''Content-Type'') ''application/json''
      \<longrightarrow> JSONOnlyMiddleware next c = next c)"
  by (auto simp add: JSONOnlyMiddleware_def AbortWithJSON_def JSON_def Status_def)

theorem JSONOnly_gate_witness:
  "JSONOnlyMiddleware (tagHandler ''store'') postRequest
     = (None, postRequest\<lparr>statusCode := 415, contentType := ''application/json'',
                body := Some [''error'' \<mapsto> JStr ''Content-Type must be application/json'']\<rparr>)
  \<and> JSONOnlyMiddleware (tagHandler ''destroy'') deleteRequest
     = tagHandler ''destroy'' deleteRequest"
proof -
  have 1: "Method postRequest \<noteq> ''GET'' \<and> Method postRequest \<noteq> ''DELETE''
           \<and> \<not> Contains (Header postRequest ''Content-Type'') ''application/json''"
    by (simp add: postRequest_def request_def ctx_eval)
  have 2: "Method deleteRequest = ''GET'' \<or> Method deleteRequest = ''DELETE''
           \<or> Contains (Header deleteRequest ''Content-Type'') ''application/json''"
    by (simp add: deleteRequest_def request_def ctx_eval)
  from JSONOnly_gate [of postRequest "tagHandler ''store''"] 1
    JSONOnly_gate [of deleteRequest "tagHandler ''destroy''"] 2
  show ?thesis by blast
qed

section \<open>The rate limiter\<close>

text \<open>
  The first request of a client the limiter has not seen is handed downstream whatever
  the quota is: that branch makes no comparison with it.
\<close>

lemma RateLimit_new:
  "clients (IP c) = None \<Longrightarrow>
     RateLimitMiddleware n next now clients c
       = (clients(IP c \<mapsto> \<lparr>requests = 1, resetTime = now + minute\<rparr>), next c)"
  by (simp add: RateLimitMiddleware_def)

lemma RateLimit_reset:
  "clients (IP c) = Some cl \<Longrightarrow> now > resetTime cl \<Longrightarrow> 0 < n \<Longrightarrow>
     RateLimitMiddleware n next now clients c
       = (clients(IP c \<mapsto> \<lparr>requests = 1, resetTime = now + minute\<rparr>), next c)"
  by (cases cl) (simp add: RateLimitMiddleware_def Let_def)

lemma RateLimit_count:
  "clients (IP c) = Some cl \<Longrightarrow> now \<le> resetTime cl \<Longrightarrow> requests cl < n \<Longrightarrow>
     RateLimitMiddleware n next now clients c
       = (clients(IP c \<mapsto> cl\<lparr>requests := requests cl + 1\<rparr>), next c)"
  by (simp add: RateLimitMiddleware_def Let_def)

lemma RateLimit_reject:
  "clients (IP c) = Some cl \<Longrightarrow> now \<le> resetTime cl \<Longrightarrow> requests cl \<ge> n \<Longrightarrow>
     RateLimitMiddleware n next now clients c = (clients, tooMany c)"
proof -
  assume a: "clients (IP c) = Some cl" "now \<le> resetTime cl" "requests cl \<ge> n"
  then have "clients(IP c \<mapsto> cl) = clients" by (simp add: fun_upd_idem)
  with a show ?thesis by (simp add: RateLimitMiddleware_def Let_def tooMany_def)
qed

lemma serveAll_step:
  "RateLimitMiddleware n next now clients c = (clients', resp) \<Longrightarrow>
     snd (serveAll n next clients ((now, c) # rest)) = resp # snd (serveAll n next clients' rest)"
  by (simp split: prod.splits)

text \<open>Inside a window: k requests counted so far, the next requests are passed until the quota is reached.\<close>
lemma serveAll_window:
  assumes "clients ip = Some cl" "requests cl = n - int (length reqs)" 
    and "list_all (\<lambda>(now, c). IP c = ip \<and> now \<le> resetTime cl) (reqs @ [(t, c)])"
  shows "snd (serveAll n next clients (reqs @ [(t, c)])) = map (\<lambda>(now, c). next c) reqs @ [tooMany c]"
  using assms
proof (induction reqs arbitrary: clients cl)
  case Nil
  then show ?case using RateLimit_reject [of clients c cl t n "next"] by simp
next
  case (Cons a reqs)
  obtain now c' where a: "a = (now, c')" by (cases a)
  with Cons.prems have c': "IP c' = ip" "now \<le> resetTime cl" by simp_all
  from Cons.prems have lt: "requests cl < n" by simp
  let ?cl = "cl\<lparr>requests := requests cl + 1\<rparr>"
  let ?clients = "clients(ip \<mapsto> ?cl)"
  from c' lt Cons.prems(1) have step: "RateLimitMiddleware n next now clients c' = (?clients, next c')"
    using RateLimit_count [of clients c' cl now n "next"] by simp
  have "snd (serveAll n next ?clients (reqs @ [(t, c)])) = map (\<lambda>(now, c). next c) reqs @ [tooMany c]"
  proof (rule Cons.IH)
    show "?clients ip = Some ?cl" by simp
    show "requests ?cl = n - int (length reqs)" using Cons.prems(2) by simp
    show "list_all (\<lambda>(now, c). IP c = ip \<and> now \<le> resetTime ?cl) (reqs @ [(t, c)])"
      using Cons.prems(3) by simp
  qed
  with serveAll_step [OF step] a show ?case by simp
qed

text \<open>
  Claim C9. Let the quota \<open>n\<close> be positive. A request of a client opens a window when
  the client is new to the limiter or its reset time has passed. If that request is
  followed by \<open>n\<close> more of the same client, none of them after the reset time of the
  window, then the first \<open>n\<close> requests are handed to the downstream handler and the
  last one, request \<open>n + 1\<close> of the window, is answered 429 with the handler not
  invoked. And any request of a known client that arrives after its reset time is handed
  downstream and leaves the client's counter at 1, with a new reset time one minute on.
\<close>

theorem RateLimit_quota:
  assumes n: "0 < n"
    and ip: "IP c0 = ip"
    and opens: "clients ip = None \<or> (\<exists>cl. clients ip = Some cl \<and> t0 > resetTime cl)"
    and len: "int (length reqs) = n - 1"
    and win: "list_all (\<lambda>(now, c). IP c = ip \<and> now \<le> t0 + minute) (reqs @ [(t, c)])"
  shows "snd (serveAll n next clients ((t0, c0) # reqs @ [(t, c)]))
           = next c0 # map (\<lambda>(now, c). next c) reqs @ [tooMany c]
       \<and> (clients' ip = Some cl' \<and> t' > resetTime cl' \<and> IP c' = ip \<longrightarrow>
            RateLimitMiddleware n next t' clients' c'
              = (clients'(ip \<mapsto> \<lparr>requests = 1, resetTime = t' + minute\<rparr>), next c'))"
proof (intro conjI impI)
  let ?cl = "\<lparr>requests = 1, resetTime = t0 + minute\<rparr>"
  let ?clients = "clients(ip \<mapsto> ?cl)"
  from opens ip n have step: "RateLimitMiddleware n next t0 clients c0 = (?clients, next c0)"
    using RateLimit_new [of clients c0 n "next" t0]
      RateLimit_reset [of clients c0 _ t0 n "next"]
    by auto
  have "snd (serveAll n next ?clients (reqs @ [(t, c)]))
          = map (\<lambda>(now, c). next c) reqs @ [tooMany c]"
  proof (rule serveAll_window)
    show "?clients ip = Some ?cl" by simp
    show "requests ?cl = n - int (length reqs)" using len by simp
    show "list_all (\<lambda>(now, c). IP c = ip \<and> now \<le> resetTime ?cl) (reqs @ [(t, c)])"
      using win by simp
  qed
  with serveAll_step [OF step]
  show "snd (serveAll n next clients ((t0, c0) # reqs @ [(t, c)]))
           = next c0 # map (\<lambda>(now, c). next c) reqs @ [tooMany c]"
    by simp
next
  assume "clients' ip = Some cl' \<and> t' > resetTime cl' \<and> IP c' = ip"
  then show "RateLimitMiddleware n next t' clients' c'
               = (clients'(ip \<mapsto> \<lparr>requests = 1, resetTime = t' + minute\<rparr>), next c')"
    using n RateLimit_reset [of clients' c' cl' t' n "next"] by simp
qed

theorem RateLimit_quota_witness:
  "snd (serveAll 2 (tagHandler ''index'') Map.empty
          [(0, request ''GET'' ''/a''), (10, request ''GET'' ''/b''), (20, request ''GET'' ''/c'')])
     = [tagHandler ''index'' (request ''GET'' ''/a''), tagHandler ''index'' (request ''GET'' ''/b''),
        tooMany (request ''GET'' ''/c'')]
   \<and> statusCode (snd (tooMany (request ''GET'' ''/c''))) = 429
   \<and> RateLimitMiddleware 2 (tagHandler ''index'') (minute + 1)
        [''10.0.0.1'' \<mapsto> \<lparr>requests = 2, resetTime = minute\<rparr>] (request ''GET'' ''/d'')
     = ([''10.0.0.1'' \<mapsto> \<lparr>requests = 1, resetTime = minute + 1 + minute\<rparr>],
        tagHandler ''index'' (request ''GET'' ''/d''))"
proof -
  have ip: "IP (request ''GET'' ''/a'') = ''10.0.0.1''"
    by (simp add: IP_def request_def)
  have opens: "(Map.empty :: string \<rightharpoonup> client) ''10.0.0.1'' = None
                 \<or> (\<exists>cl. (Map.empty :: string \<rightharpoonup> client) ''10.0.0.1'' = Some cl \<and> 0 > resetTime cl)"
    by simp
  have len: "int (length [(10 :: int, request ''GET'' ''/b'')]) = 2 - 1"
    by simp
  have win: "list_all (\<lambda>(now, c). IP c = ''10.0.0.1'' \<and> now \<le> 0 + minute)
               ([(10, request ''GET'' ''/b'')] @ [(20, request ''GET'' ''/c'')])"
    by (simp add: IP_def request_def minute_def)
  have known: "[''10.0.0.1'' \<mapsto> \<lparr>requests = 2, resetTime = minute\<rparr>] ''10.0.0.1''
                 = Some \<lparr>requests = 2, resetTime = minute\<rparr>
               \<and> minute + 1 > resetTime \<lparr>requests = 2, resetTime = minute\<rparr>
               \<and> IP (request ''GET'' ''/d'') = ''10.0.0.1''"
    by (simp add: IP_def request_def)
  have st: "statusCode (snd (tooMany (request ''GET'' ''/c''))) = 429"
    by (simp add: tooMany_def AbortWithJSON_def JSON_def Status_def)
  from RateLimit_quota [OF _ ip opens len win,
      of "tagHandler ''index''" "[''10.0.0.1'' \<mapsto> \<lparr>requests = 2, resetTime = minute\<rparr>]"
         "\<lparr>requests = 2, resetTime = minute\<rparr>" "minute + 1" "request ''GET'' ''/d''"]
    known st
  show ?thesis by simp
qed

section \<open>Dispatch: the first registered route wins\<close>

lemma wrap_Nil: "wrap [] h = h"
  by (simp add: wrap_def)

lemma scanRoutes_skip:
  "\<forall>rt \<in> set pre. Match rt (reqPath c) = None \<Longrightarrow>
     scanRoutes r m (pre @ rest) i c = scanRoutes r m rest (i + length pre) c"
  by (induction pre arbitrary: i) simp_all

lemma Add_bucket:
  assumes "Add r meth t h st = Some (ref, st')"
  shows "\<exists>re names.
           compile (rprefix (routers st ! r) @ t) = Some (re, names)
           \<and> ref = (ToUpper meth, length (case routes st (ToUpper meth) of None \<Rightarrow> [] | Some rs \<Rightarrow> rs))
           \<and> routes st' = (routes st)(ToUpper meth \<mapsto>
                 (case routes st (ToUpper meth) of None \<Rightarrow> [] | Some rs \<Rightarrow> rs)
                 @ [\<lparr>routeMethod = ToUpper meth, path = rprefix (routers st ! r) @ t, handler = h,
                     middleware = [], name = [], pattern = re, paramNames = names\<rparr>])
           \<and> routers st' = routers st"
  using assms by (auto simp: Add_def Let_def split: option.splits)

lemma usersRouter_routes:
  "routes usersRouter ''GET''
     = Some [\<lparr>routeMethod = ''GET'', path = ''/users/{id}'', handler = tagHandler ''show'',
              middleware = [], name = [], pattern = map Chr ''/users/'' @ [ReqCap], paramNames = [''id'']\<rparr>,
             \<lparr>routeMethod = ''GET'', path = ''/users/me'', handler = tagHandler ''me'',
              middleware = [], name = [], pattern = map Chr ''/users/me'', paramNames = []\<rparr>]"
  by (simp add: usersRouter_def add_eval compile_eval)

lemma usersRouter_me:
  "Handle usersRouter 0 (request ''GET'' ''/users/me'')
         = (None, (request ''GET'' ''/users/me'')\<lparr>params := [''id'' \<mapsto> ''me''], route := Some (''GET'', 0),
                     store := [''handler'' \<mapsto> JStr ''show'']\<rparr>)"
  by (simp add: Handle_def usersRouter_routes usersRouter_def NewRouter_def add_eval compile_eval request_def match_eval ctx_eval wrap_def tagHandler_def)

text \<open>
  Claim C5. Two routes are registered one after the other on the same method (through
  the same router or not), and the request's path matches both, while no route
  registered on that method before them matches it. Then \<^verbatim>\<open>Handle\<close>, called on any router of the store, gives the
  request to the first of the two: the context gets that route's parameters and its
  pointer, and the handler that runs is the first route's (inside the middleware of the
  router \<^verbatim>\<open>Handle\<close> was called on). In particular, after \<^verbatim>\<open>GET /users/{id}\<close> and then
  \<^verbatim>\<open>GET /users/me\<close>, the request \<^verbatim>\<open>GET /users/me\<close> is handled by the first route with
  \<open>id\<close> bound to \<open>me\<close>.
\<close>

theorem Handle_first_registered:
  assumes add1: "Add r1 meth1 t1 h1 st = Some (ref1, st1)"
    and add2: "Add r2 meth2 t2 h2 st1 = Some (ref2, st2)"
    and same: "ToUpper meth1 = ToUpper meth2"
    and m: "reqMethod c = ToUpper meth1"
    and old: "\<forall>rt \<in> set (case routes st (ToUpper meth1) of None \<Rightarrow> [] | Some rs \<Rightarrow> rs).
                Match rt (reqPath c) = None"
    and l1: "lookupRoute st2 ref1 = Some rt1" and l2: "lookupRoute st2 ref2 = Some rt2"
    and m1: "Match rt1 (reqPath c) = Some ps1" and m2: "Match rt2 (reqPath c) = Some ps2"
  shows "snd ref1 < snd ref2
       \<and> Handle st2 q c
           = wrap (rmiddleware (routers st2 ! q)) h1 (c\<lparr>params := ps1, route := Some ref1\<rparr>)
       \<and> Handle usersRouter 0 (request ''GET'' ''/users/me'')
           = (None, (request ''GET'' ''/users/me'')\<lparr>params := [''id'' \<mapsto> ''me''],
                      route := Some (''GET'', 0), store := [''handler'' \<mapsto> JStr ''show'']\<rparr>)"
proof -
  let ?m = "ToUpper meth1"
  let ?old = "case routes st ?m of None \<Rightarrow> [] | Some rs \<Rightarrow> rs"
  from Add_bucket [OF add1] obtain re1 names1 where
    r1: "ref1 = (?m, length ?old)"
    and b1: "routes st1 = (routes st)(?m \<mapsto> ?old @ [\<lparr>routeMethod = ?m,
               path = rprefix (routers st ! r1) @ t1, handler = h1, middleware = [], name = [],
               pattern = re1, paramNames = names1\<rparr>])"
    by blast
  let ?rt1 = "\<lparr>routeMethod = ?m, path = rprefix (routers st ! r1) @ t1, handler = h1,
               middleware = [], name = [], pattern = re1, paramNames = names1\<rparr>"
  from Add_bucket [OF add2] b1 same obtain rt2' where
    r2: "ref2 = (?m, Suc (length ?old))"
    and b2: "routes st2 ?m = Some (?old @ [?rt1, rt2'])"
    by auto
  from l1 r1 b2 have rt1: "rt1 = ?rt1"
    by (simp add: lookupRoute_def nth_append)
  from b2 m have "Handle st2 q c = scanRoutes (routers st2 ! q) ?m (?old @ [?rt1, rt2']) 0 c"
    by (simp add: Handle_def)
  also have "\<dots> = scanRoutes (routers st2 ! q) ?m [?rt1, rt2'] (length ?old) c"
    using scanRoutes_skip [OF old, of "routers st2 ! q" ?m "[?rt1, rt2']" 0] by simp
  also have "\<dots> = wrap (rmiddleware (routers st2 ! q)) h1
                      (c\<lparr>params := ps1, route := Some ref1\<rparr>)"
    using m1 rt1 r1 by (simp add: wrap_Nil)
  finally have "Handle st2 q c
      = wrap (rmiddleware (routers st2 ! q)) h1 (c\<lparr>params := ps1, route := Some ref1\<rparr>)" .
  with r1 r2 usersRouter_me show ?thesis by simp
qed

theorem Handle_first_registered_witness:
  "lookupRoute usersRouter (''GET'', 0)
     = Some \<lparr>routeMethod = ''GET'', path = ''/users/{id}'', handler = tagHandler ''show'',
              middleware = [], name = [], pattern = map Chr ''/users/'' @ [ReqCap],
              paramNames = [''id'']\<rparr>
   \<and> Match (the (lookupRoute usersRouter (''GET'', 1))) ''/users/me'' = Some Map.empty
   \<and> Handle usersRouter 0 (request ''GET'' ''/users/me'')
       = wrap (rmiddleware (routers usersRouter ! 0)) (tagHandler ''show'')
           ((request ''GET'' ''/users/me'')\<lparr>params := [''id'' \<mapsto> ''me''],
                                              route := Some (''GET'', 0)\<rparr>)"
proof -
  let ?rt1 = "\<lparr>routeMethod = ''GET'', path = ''/users/{id}'', handler = tagHandler ''show'',
               middleware = [], name = [], pattern = map Chr ''/users/'' @ [ReqCap],
               paramNames = [''id'']\<rparr>"
  let ?rt2 = "\<lparr>routeMethod = ''GET'', path = ''/users/me'', handler = tagHandler ''me'',
               middleware = [], name = [], pattern = map Chr ''/users/me'', paramNames = []\<rparr>"
  let ?st1 = "NewRouter\<lparr>routes := [''GET'' \<mapsto> [?rt1]]\<rparr>"
  let ?c = "request ''GET'' ''/users/me''"
  have add1: "Add 0 ''GET'' ''/users/{id}'' (tagHandler ''show'') NewRouter
                = Some ((''GET'', 0), ?st1)"
    by (simp add: add_eval compile_eval)
  have add2: "Add 0 ''GET'' ''/users/me'' (tagHandler ''me'') ?st1
                = Some ((''GET'', 1), usersRouter)"
    by (simp add: usersRouter_def add_eval compile_eval)
  have m: "reqMethod ?c = ToUpper ''GET''"
    by (simp add: request_def ToUpper_def upperChar_def)
  have old: "\<forall>rt \<in> set (case routes NewRouter (ToUpper ''GET'') of None \<Rightarrow> [] | Some rs \<Rightarrow> rs).
               Match rt (reqPath ?c) = None"
    by (simp add: NewRouter_def)
  have l1: "lookupRoute usersRouter (''GET'', 0) = Some ?rt1"
    and l2: "lookupRoute usersRouter (''GET'', 1) = Some ?rt2"
    by (simp_all add: lookupRoute_def usersRouter_routes)
  have m1: "Match ?rt1 (reqPath ?c) = Some [''id'' \<mapsto> ''me'']"
    and m2: "Match ?rt2 (reqPath ?c) = Some Map.empty"
    by (simp_all add: request_def match_eval)
  from Handle_first_registered [OF add1 add2 refl m old l1 l2 m1 m2, of 0] l1 l2 m2
  show ?thesis by (simp add: request_def)
qed

section \<open>Dispatch: the middleware of a group\<close>

lemma groupedApp_router:
  "routes (router groupedApp) ''GET''
     = Some [\<lparr>routeMethod = ''GET'', path = ''/api/x'', handler = tracedHandler,
              middleware = [trace ''route''], name = [], pattern = map Chr ''/api/x'',
              paramNames = []\<rparr>]"
  "routers (router groupedApp)
     = [\<lparr>rmiddleware = [trace ''root''], rprefix = [], parent = None\<rparr>,
        \<lparr>rmiddleware = [trace ''group''], rprefix = ''/api'', parent = Some 0\<rparr>]"
  "appMiddleware groupedApp = [trace ''global'']"
  by (simp_all add: groupedApp_def Use_def Group_def apiGroup_def Router_Middleware_def
      Route_Middleware_def updRoute_def add_eval compile_eval)

text \<open>
  Claim C2 does not hold of the code. The route \<^verbatim>\<open>GET /api/x\<close> is registered through
  the group \<^verbatim>\<open>/api\<close>, and the group has the middleware \<open>group\<close>. The application's
  handler calls \<^verbatim>\<open>Handle\<close> on the root router, which wraps the route in the root
  router's middleware only: the log of the request shows the global, the root and the
  route middleware around the handler, and no entry of the group's middleware.
\<close>

theorem group_middleware_not_run:
  "rmiddleware (routers (router groupedApp) ! 1) = [trace ''group'']
   \<and> map path (the (routes (router groupedApp) ''GET'')) = [''/api/x'']
   \<and> store (snd (buildHandler groupedApp (request ''GET'' ''/api/x''))) ''log''
       = Some (JStr (''global-before root-before route-before handler ''
                     @ ''route-after root-after global-after ''))"
  by (simp add: groupedApp_router buildHandler_def Handle_def wrap_def trace_def logAppend_def
      tracedHandler_def request_def match_eval ctx_eval)

section \<open>Concurrent callers of Make\<close>

text \<open>
  A goroutine that is scheduled three times in a row, with no other in between, does
  what \<^verbatim>\<open>Make\<close> does.
\<close>

lemma Make_as_steps:
  "runSchedule run [0, 0, 0] ([Start abstract], s) = ([Done (fst (Make run abstract s))], snd (Make run abstract s))"
proof -
  obtain c w log where s: "s = (c, w, log)" by (cases s)
  show ?thesis
    unfolding s
    by (auto simp: runSchedule_def schedStep_def Make_def Let_def split: option.splits prod.splits)
qed

text \<open>
  Claim C1 does not hold of the code. Two goroutines call \<^verbatim>\<open>Make\<close> on the singleton
  \<open>svc\<close>, which has no instance yet. Both pass the lookup under the read lock before
  either stores; both then invoke the resolver, and each stores and returns its own
  result. The resolver has run twice (the log has two entries), the callers hold the
  distinct instances 0 and 1, and the cache keeps the second.
\<close>

theorem concurrent_Make_resolves_twice:
  "runSchedule counterResolve [0, 1, 0, 1, 0, 1]
     ([Start ''svc'', Start ''svc''], (singletonContainer, 0, []))
   = ([Done (Inr 0), Done (Inr 1)], (Instance ''svc'' 1 singletonContainer, 2, [0, 0]))"
  by (simp add: runSchedule_def schedStep_def counterResolve_def singletonContainer_def
      Singleton_def Instance_def NewContainer_def canonical_def Let_def)

text \<open>When the second caller starts after the first has finished, the resolver runs once.\<close>

lemma sequential_Make_resolves_once:
  "runSchedule counterResolve [0, 0, 0, 1, 1, 1]
     ([Start ''svc'', Start ''svc''], (singletonContainer, 0, []))
   = ([Done (Inr 0), Done (Inr 0)], (Instance ''svc'' 0 singletonContainer, 1, [0]))"
  by (simp add: runSchedule_def schedStep_def counterResolve_def singletonContainer_def
      Singleton_def Instance_def NewContainer_def canonical_def Let_def)

section \<open>Compiling a well-formed template\<close>

lemma plain_not_special:
  "plain c \<Longrightarrow> c \<noteq> CHR ''{''" "plain c \<Longrightarrow> c \<noteq> CHR ''(''"
  by (auto simp: plain_def metachars_def)

lemma word_not_special:
  "isWordChar c \<Longrightarrow> c \<noteq> CHR ''{''" "isWordChar c \<Longrightarrow> c \<noteq> CHR ''}''" "isWordChar c \<Longrightarrow> c \<noteq> CHR ''?''"
  by (auto simp: isWordChar_def)

lemma not_plain [simp]: "\<not> plain CHR ''{''" "\<not> plain CHR ''(''"
  by (simp_all add: plain_def metachars_def)

lemma matchAt_other: "c \<noteq> CHR ''{'' \<Longrightarrow> matchAt re (c # cs) = None"
  by (simp add: matchAt_def)

text \<open>Text without an opening brace passes through a replacement unchanged.\<close>
lemma Replace_pass:
  "CHR ''{'' \<notin> set s \<Longrightarrow>
     ReplaceAllStringFunc re f (s @ rest) acc
       = (s @ fst (ReplaceAllStringFunc re f rest acc), snd (ReplaceAllStringFunc re f rest acc))"
  by (induction s) (auto simp: matchAt_other split: prod.splits)

lemma takeWhile_word:
  "list_all isWordChar n \<Longrightarrow> \<not> isWordChar d \<Longrightarrow> takeWhile isWordChar (n @ d # rest) = n"
  by (induction n) auto

lemma dropWhile_word:
  "list_all isWordChar n \<Longrightarrow> \<not> isWordChar d \<Longrightarrow> dropWhile isWordChar (n @ d # rest) = d # rest"
  by (induction n) auto

lemma not_word [simp]: "\<not> isWordChar CHR ''}''" "\<not> isWordChar CHR ''?''" "\<not> isWordChar CHR ''{''"
  by (simp_all add: isWordChar_def)

lemma matchAt_Req:
  "n \<noteq> [] \<Longrightarrow> list_all isWordChar n \<Longrightarrow>
     matchAt RequiredRe (CHR ''{'' # n @ CHR ''}'' # rest) = Some (CHR ''{'' # n @ ''}'', rest)"
  by (simp add: matchAt_def takeWhile_word dropWhile_word closing_def)

lemma matchAt_Opt:
  "n \<noteq> [] \<Longrightarrow> list_all isWordChar n \<Longrightarrow>
     matchAt OptionalRe (CHR ''{'' # n @ CHR ''?'' # CHR ''}'' # rest) = Some (CHR ''{'' # n @ ''?}'', rest)"
  by (simp add: matchAt_def takeWhile_word dropWhile_word closing_def)

lemma matchAt_Req_on_Opt:
  "list_all isWordChar n \<Longrightarrow>
     matchAt RequiredRe (CHR ''{'' # n @ CHR ''?'' # rest) = None"
  by (simp add: matchAt_def takeWhile_word dropWhile_word closing_def)

lemma Trim_name:
  assumes "n \<noteq> []" "list_all isWordChar n" "set pre \<subseteq> set cutset" "set post \<subseteq> set cutset"
    "\<forall>c \<in> set cutset. \<not> isWordChar c"
  shows "Trim (pre @ n @ post) cutset = n"
proof -
  from assms obtain a n' where n: "n = a # n'" by (cases n) auto
  from assms obtain n'' b where n2: "n = n'' @ [b]" by (cases n rule: rev_cases) auto
  from assms n have a: "a \<notin> set cutset" by auto
  from assms n2 have b: "b \<notin> set cutset" by auto
  have 1: "dropWhile (\<lambda>c. c \<in> set cutset) (pre @ n @ post) = n @ post"
    using assms(3) a n by (simp add: dropWhile_append3 subset_iff) 
  have "dropWhile (\<lambda>c. c \<in> set cutset) (rev (n @ post)) = rev n"
    using assms(4) b n2 by (simp add: dropWhile_append3 subset_iff)
  with 1 show ?thesis by (simp add: Trim_def)
qed


lemma pass_required:
  "wfTemplate segs \<Longrightarrow>
     ReplaceAllStringFunc RequiredRe (\<lambda>m names. (''([^/]+)'', names @ [Trim m ''{}'']))
        (render segs) acc
       = (concat (map afterRequired segs), acc @ reqNames segs)"
proof (induction segs arbitrary: acc)
  case Nil
  then show ?case by (simp add: render_def)
next
  case (Cons sg segs)
  then have wf: "wfSeg sg" and wfs: "wfTemplate segs" by (simp_all add: wfTemplate_def)
  note IH = Cons.IH [OF wfs]
  show ?case
  proof (cases sg)
    case (Lit s)
    with wf have "CHR ''{'' \<notin> set s" by (auto simp: list_all_iff)
    from Replace_pass [OF this] IH Lit show ?thesis by (simp add: render_def)
  next
    case (Req n)
    with wf have n: "n \<noteq> []" "list_all isWordChar n" by simp_all
    have "Trim (''{'' @ n @ ''}'') ''{}'' = n"
      by (rule Trim_name [OF n]) auto
    with matchAt_Req [OF n] IH Req show ?thesis by (simp add: render_def reqText_def)
  next
    case (Opt n)
    with wf have n: "n \<noteq> []" "list_all isWordChar n" by simp_all
    then have "CHR ''{'' \<notin> set (n @ ''?}'')" by (auto simp: list_all_iff)
    from Replace_pass [OF this] matchAt_Req_on_Opt [OF n(2)] IH Opt
    show ?thesis by (simp add: render_def)
  qed
qed

lemma pass_optional:
  "wfTemplate segs \<Longrightarrow>
     ReplaceAllStringFunc OptionalRe (\<lambda>m names. (''(?:([^/]+))?'', names @ [Trim m ''{?}'']))
        (concat (map afterRequired segs)) acc
       = (concat (map afterOptional segs), acc @ optNames segs)"
proof (induction segs arbitrary: acc)
  case Nil
  then show ?case by simp
next
  case (Cons sg segs)
  then have wf: "wfSeg sg" and wfs: "wfTemplate segs" by (simp_all add: wfTemplate_def)
  note IH = Cons.IH [OF wfs]
  show ?case
  proof (cases sg)
    case (Lit s)
    with wf have "CHR ''{'' \<notin> set s" by (auto simp: list_all_iff)
    from Replace_pass [OF this] IH Lit show ?thesis by simp
  next
    case (Req n)
    have "CHR ''{'' \<notin> set reqText" by (simp add: reqText_def)
    from Replace_pass [OF this] IH Req show ?thesis by simp
  next
    case (Opt n)
    with wf have n: "n \<noteq> []" "list_all isWordChar n" by simp_all
    have "Trim (''{'' @ n @ ''?}'') ''{?}'' = n"
      by (rule Trim_name [OF n]) auto
    with matchAt_Opt [OF n] IH Opt show ?thesis by (simp add: optText_def)
  qed
qed

lemma parse_plain:
  "list_all plain s \<Longrightarrow>
     regexp_parse (s @ rest) = map_option ((@) (map Chr s)) (regexp_parse rest)"
proof (induction s)
  case Nil
  show ?case by (simp add: option.map_ident cong: option.map_cong)
next
  case (Cons c s)
  then have c: "plain c" "c \<noteq> CHR ''(''" by auto
  then have "\<not> prefix optText (c # s @ rest)" "\<not> prefix reqText (c # s @ rest)"
    by (auto simp: optText_def reqText_def)
  with Cons c show ?case by (simp add: option.map_comp comp_def)
qed

lemma parse_reqText: "regexp_parse (reqText @ rest) = map_option (Cons ReqCap) (regexp_parse rest)"
  by (simp add: reqText_def optText_def)

lemma parse_optText: "regexp_parse (optText @ rest) = map_option (Cons OptCap) (regexp_parse rest)"
  by (simp add: reqText_def optText_def)

lemma parse_template:
  "wfTemplate segs \<Longrightarrow> regexp_parse (concat (map afterOptional segs)) = Some (insts segs)"
proof (induction segs)
  case Nil
  then show ?case by (simp add: insts_def)
next
  case (Cons sg segs)
  then have wf: "wfSeg sg" and IH: "regexp_parse (concat (map afterOptional segs)) = Some (insts segs)"
    by (simp_all add: wfTemplate_def)
  show ?case
  proof (cases sg)
    case (Lit s)
    with wf IH show ?thesis by (simp add: parse_plain insts_def)
  next
    case (Req n)
    with IH show ?thesis by (simp add: parse_reqText insts_def)
  next
    case (Opt n)
    with IH show ?thesis by (simp add: parse_optText insts_def)
  qed
qed

lemma MustCompile_anchored: "MustCompile (''^'' @ p @ ''$'') = regexp_parse p"
  by (simp add: MustCompile_def)

lemma compile_render:
  "wfTemplate segs \<Longrightarrow> compile (render segs) = Some (insts segs, reqNames segs @ optNames segs)"
  using pass_required [of segs "[]"] pass_optional [of segs "reqNames segs"]
    MustCompile_anchored [of "concat (map afterOptional segs)"]
  by (simp add: compile_def compilePattern_def parse_template)

section \<open>What a match binds\<close>

lemma take_segLen: "k \<le> segLen s \<Longrightarrow> CHR ''/'' \<notin> set (take k s)"
proof -
  assume "k \<le> segLen s"
  then have "take k s = take k (takeWhile (\<lambda>c. c \<noteq> CHR ''/'') s)"
    by (metis segLen_def takeWhile_dropWhile_id take_append length_takeWhile_le diff_is_0_eq take_0 append_Nil2 le_refl take_all take_take min.absorb1) 
  then show ?thesis
    by (metis in_set_takeD set_takeWhileD)
qed

lemma segLen_le: "segLen s \<le> length s"
  by (simp add: segLen_def length_takeWhile_le)

lemma capture_elem:
  "x \<in> set (capture cont s k) \<Longrightarrow>
     \<exists>j rest. 0 < j \<and> j \<le> k \<and> rest \<in> set (cont (drop j s)) \<and> x = take j s # rest"
proof (induction k)
  case 0
  then show ?case by simp
next
  case (Suc k)
  then show ?case by (auto intro: le_SucI)
qed

lemma runs_caps:
  "caps \<in> set (runs re s) \<Longrightarrow> list_all2 capOK (capKinds re) caps"
proof (induction re arbitrary: s caps)
  case Nil
  then show ?case by (simp split: if_splits)
next
  case (Cons i re)
  show ?case
  proof (cases i)
    case (Chr c)
    with Cons show ?thesis by (auto split: list.splits if_splits)
  next
    case ReqCap
    with Cons.prems obtain j rest where j: "0 < j" "j \<le> segLen s" "rest \<in> set (runs re (drop j s))" "caps = take j s # rest"
      using capture_elem [of caps "runs re" s "segLen s"] by auto
    from j(1,2) segLen_le [of s] have "take j s \<noteq> []" by auto
    with j take_segLen [OF j(2)] Cons.IH [OF j(3)] ReqCap show ?thesis
      by (simp add: capOK_def)
  next
    case OptCap
    with Cons.prems consider
      (taken) "caps \<in> set (capture (runs re) s (segLen s))" | (skipped) rest where "rest \<in> set (runs re s)" "caps = [] # rest"
      by auto
    then show ?thesis
    proof cases
      case taken
      then obtain j rest where j: "0 < j" "j \<le> segLen s" "rest \<in> set (runs re (drop j s))" "caps = take j s # rest"
        using capture_elem [of caps "runs re" s "segLen s"] by auto
      with take_segLen [OF j(2)] Cons.IH [OF j(3)] OptCap show ?thesis
        by (simp add: capOK_def)
    next
      case skipped
      with Cons.IH [OF skipped(1)] OptCap show ?thesis by (simp add: capOK_def)
    qed
  qed
qed

lemma bindParams_simps [simp]:
  "bindParams [] ps = ps"
  "bindParams ((nm, v) # prs) ps = bindParams prs (if v \<noteq> [] then ps(nm \<mapsto> v) else ps)"
  by (simp_all add: bindParams_def)

lemma Match_loop:
  "fold (\<lambda>(i, nm) ps. if i + 1 < length (p # caps) \<and> (p # caps) ! (i + 1) \<noteq> []
                        then ps(nm \<mapsto> (p # caps) ! (i + 1)) else ps)
        (enumerate k names) ps
     = bindParams (zip names (drop k caps)) ps"
proof (induction names arbitrary: k ps)
  case Nil
  then show ?case by simp
next
  case (Cons n names)
  show ?case
  proof (cases "k < length caps")
    case True
    then have "drop k caps = caps ! k # drop (Suc k) caps"
      by (simp add: Cons_nth_drop_Suc)
    with True Cons.IH [of "Suc k"] show ?thesis by (simp add: fun_upd_def)
  next
    case False
    with Cons.IH [of "Suc k"] show ?thesis by simp
  qed
qed

lemma Match_runs:
  "Match rt p = (case runs (pattern rt) p of [] \<Rightarrow> None
                 | caps # _ \<Rightarrow> Some (bindParams (zip (paramNames rt) caps) Map.empty))"
  using Match_loop [of p _ 0 "paramNames rt" Map.empty]
  by (simp add: Match_def FindStringSubmatch_def split: list.splits)

lemma bindParams_dom: "dom (bindParams prs ps) \<subseteq> dom ps \<union> fst ` set prs"
proof (induction prs arbitrary: ps)
  case Nil
  show ?case by simp
next
  case (Cons a prs)
  obtain m w where a: "a = (m, w)" by (cases a)
  from Cons.IH [of "if w \<noteq> [] then ps(m \<mapsto> w) else ps"] a
  show ?case by (auto split: if_splits)
qed

lemma bindParams_values:
  "\<forall>n v. ps n = Some v \<longrightarrow> Q v \<Longrightarrow> \<forall>(n, v) \<in> set prs. v \<noteq> [] \<longrightarrow> Q v \<Longrightarrow>
     bindParams prs ps n = Some v \<Longrightarrow> Q v"
proof (induction prs arbitrary: ps)
  case Nil
  then show ?case by simp
next
  case (Cons a prs)
  obtain m w where a: "a = (m, w)" by (cases a)
  show ?case
  proof (rule Cons.IH [of "if w \<noteq> [] then ps(m \<mapsto> w) else ps"])
    show "\<forall>n v. (if w \<noteq> [] then ps(m \<mapsto> w) else ps) n = Some v \<longrightarrow> Q v"
      using Cons.prems(1,2) a by auto
    show "\<forall>(n, v)\<in>set prs. v \<noteq> [] \<longrightarrow> Q v" using Cons.prems(2) by simp
    show "bindParams prs (if w \<noteq> [] then ps(m \<mapsto> w) else ps) n = Some v"
      using Cons.prems(3) a by simp
  qed
qed

lemma bindParams_keeps: "n \<in> dom ps \<Longrightarrow> n \<in> dom (bindParams prs ps)"
proof (induction prs arbitrary: ps)
  case Nil
  then show ?case by simp
next
  case (Cons a prs)
  obtain m w where a: "a = (m, w)" by (cases a)
  from Cons.prems have "n \<in> dom (if w \<noteq> [] then ps(m \<mapsto> w) else ps)" by auto
  from Cons.IH [OF this] a show ?case by simp
qed

lemma bindParams_binds: "(n, v) \<in> set prs \<Longrightarrow> v \<noteq> [] \<Longrightarrow> n \<in> dom (bindParams prs ps)"
proof (induction prs arbitrary: ps)
  case Nil
  then show ?case by simp
next
  case (Cons a prs)
  show ?case
  proof (cases "a = (n, v)")
    case True
    with Cons.prems(2) bindParams_keeps [of n "ps(n \<mapsto> v)" prs] show ?thesis by simp
  next
    case False
    obtain m w where a: "a = (m, w)" by (cases a)
    from False Cons.prems have "(n, v) \<in> set prs" by auto
    from Cons.IH [OF this Cons.prems(2), of "if w \<noteq> [] then ps(m \<mapsto> w) else ps"] a
    show ?thesis by simp
  qed
qed

lemma capKinds_Chr: "capKinds (map Chr s @ re) = capKinds re"
  by (induction s) simp_all

lemma capKinds_optional_only:
  "reqNames segs = [] \<Longrightarrow> capKinds (insts segs) = replicate (length (optNames segs)) OptCap"
proof (induction segs)
  case Nil
  then show ?case by (simp add: insts_def)
next
  case (Cons sg segs)
  then show ?case by (cases sg) (simp_all add: insts_def capKinds_Chr)
qed

lemma capKinds_insts:
  "optionalsLast segs \<Longrightarrow>
     capKinds (insts segs)
       = replicate (length (reqNames segs)) ReqCap @ replicate (length (optNames segs)) OptCap"
proof (induction segs)
  case Nil
  then show ?case by (simp add: insts_def)
next
  case (Cons sg segs)
  show ?case
  proof (cases sg)
    case (Lit s)
    with Cons show ?thesis by (simp add: insts_def capKinds_Chr)
  next
    case (Req n)
    with Cons show ?thesis by (simp add: insts_def)
  next
    case (Opt n)
    with Cons.prems have r: "reqNames segs = []" by simp
    have "insts (sg # segs) = OptCap # insts segs" using Opt by (simp add: insts_def)
    with capKinds_optional_only [OF r] r Opt show ?thesis by simp
  qed
qed

lemma optionalFirstRouter_route:
  "lookupRoute optionalFirstRouter (''GET'', 0)
     = Some \<lparr>routeMethod = ''GET'', path = ''/{x?}/{y}'', handler = tagHandler ''xy'',
              middleware = [], name = [],
              pattern = [Chr CHR ''/'', OptCap, Chr CHR ''/'', ReqCap],
              paramNames = [''y'', ''x'']\<rparr>"
  by (simp add: lookupRoute_def optionalFirstRouter_def add_eval compile_eval)

text \<open>
  Claim C10, as stated, fails on a template with an optional token before a required
  one. The route \<^verbatim>\<open>/{x?}/{y}\<close> compiles; its names are listed required first, \<open>y\<close> then
  \<open>x\<close>, while the capture groups stand in the order of the text. The path \<^verbatim>\<open>//v\<close> is
  accepted, and the result binds \<open>x\<close> to \<open>v\<close> and leaves the required \<open>y\<close> unbound.
\<close>

theorem Match_required_unbound_counterexample:
  "compile ''/{x?}/{y}'' = Some ([Chr CHR ''/'', OptCap, Chr CHR ''/'', ReqCap], [''y'', ''x''])
   \<and> Match (the (lookupRoute optionalFirstRouter (''GET'', 0))) ''//v'' = Some [''x'' \<mapsto> ''v'']
   \<and> [''x'' \<mapsto> ''v''] ''y'' = None"
  by (simp add: optionalFirstRouter_route compile_eval match_eval)

text \<open>
  Claim C10, amended. For every route and every path \<^verbatim>\<open>Match\<close> accepts, the result binds
  only names of the route's \<^verbatim>\<open>paramNames\<close>. If moreover the route was compiled from a
  template in the documented syntax (literal text without regexp metacharacters, tokens
  with word names) in which no required token comes after an optional one, then every
  required name of the template is bound to a non-empty string without a separator.
\<close>

theorem Match_params_sound:
  assumes m: "Match rt p = Some ps"
  shows "dom ps \<subseteq> set (paramNames rt)
       \<and> (wfTemplate segs \<and> optionalsLast segs \<and> path rt = render segs
            \<and> compile (path rt) = Some (pattern rt, paramNames rt)
          \<longrightarrow> (\<forall>n \<in> set (reqNames segs). \<exists>v. ps n = Some v \<and> v \<noteq> [] \<and> CHR ''/'' \<notin> set v))"
proof -
  from m obtain caps more where runs: "runs (pattern rt) p = caps # more"
    and ps: "ps = bindParams (zip (paramNames rt) caps) Map.empty"
    by (auto simp: Match_runs split: list.splits)
  have "fst ` set (zip (paramNames rt) caps) \<subseteq> set (paramNames rt)"
    by (auto dest: set_zip_leftD)
  with bindParams_dom [of "zip (paramNames rt) caps" Map.empty] ps
  have dom: "dom ps \<subseteq> set (paramNames rt)"
    by simp
  from runs have "caps \<in> set (runs (pattern rt) p)" by simp
  then have ok: "list_all2 capOK (capKinds (pattern rt)) caps" by (rule runs_caps)
  have slash: "bindParams (zip (paramNames rt) caps) Map.empty n = Some v \<Longrightarrow> CHR ''/'' \<notin> set v \<and> v \<noteq> []" for n v
  proof (rule bindParams_values [where Q = "\<lambda>v. CHR ''/'' \<notin> set v \<and> v \<noteq> []"])
    show "\<forall>n v. Map.empty n = Some v \<longrightarrow> CHR ''/'' \<notin> set v \<and> v \<noteq> []" by simp
    show "\<forall>(n, v)\<in>set (zip (paramNames rt) caps). v \<noteq> [] \<longrightarrow> CHR ''/'' \<notin> set v \<and> v \<noteq> []"
    proof clarify
      fix n v assume "(n, v) \<in> set (zip (paramNames rt) caps)"
      then have "v \<in> set caps" by (rule set_zip_rightD)
      then obtain i where "i < length caps" "caps ! i = v" by (auto simp: in_set_conv_nth)
      with ok have "capOK (capKinds (pattern rt) ! i) v" by (auto simp: list_all2_conv_all_nth)
      then show "CHR ''/'' \<in> set v \<Longrightarrow> False" by (simp add: capOK_def)
    qed
  qed
  have req: "\<exists>v. ps n = Some v \<and> v \<noteq> [] \<and> CHR ''/'' \<notin> set v"
    if wf: "wfTemplate segs" and ol: "optionalsLast segs" and p: "path rt = render segs"
      and c: "compile (path rt) = Some (pattern rt, paramNames rt)" and n: "n \<in> set (reqNames segs)"
    for n
  proof -
    from compile_render [OF wf] p c have pat: "pattern rt = insts segs"
      and names: "paramNames rt = reqNames segs @ optNames segs" by simp_all
    from n obtain i where i: "i < length (reqNames segs)" "reqNames segs ! i = n"
      by (auto simp: in_set_conv_nth)
    from ok pat capKinds_insts [OF ol]
    have len: "length caps = length (reqNames segs) + length (optNames segs)"
      and kinds: "\<forall>j < length caps. capOK ((replicate (length (reqNames segs)) ReqCap
                     @ replicate (length (optNames segs)) OptCap) ! j) (caps ! j)"
      by (auto simp: list_all2_conv_all_nth)
    from i len kinds have ne: "caps ! i \<noteq> []"
      by (auto simp: capOK_def nth_append dest!: spec [of _ i])
    from i len names have "(n, caps ! i) \<in> set (zip (paramNames rt) caps)"
      by (auto simp: in_set_zip nth_append intro!: exI [of _ i])
    from bindParams_binds [OF this ne, of Map.empty] ps obtain v where v: "ps n = Some v" by auto
    with slash [of n v] ps show ?thesis by simp
  qed
  from dom req show ?thesis by blast
qed

theorem Match_params_sound_witness:
  "Match (the (lookupRoute postsRouter (''GET'', 0))) ''/users/7/posts/'' = Some [''id'' \<mapsto> ''7'']
   \<and> dom [''id'' \<mapsto> ''7''] \<subseteq> set [''id'', ''pid'']
   \<and> (\<exists>v. [''id'' \<mapsto> ''7''] ''id'' = Some v \<and> v \<noteq> [] \<and> CHR ''/'' \<notin> set v)"
proof -
  let ?rt = "\<lparr>routeMethod = ''GET'', path = render postsTemplate, handler = tagHandler ''posts'',
              middleware = [], name = [],
              pattern = map Chr ''/users/'' @ [ReqCap] @ map Chr ''/posts/'' @ [OptCap],
              paramNames = [''id'', ''pid'']\<rparr>"
  have rt: "lookupRoute postsRouter (''GET'', 0) = Some ?rt"
    by (simp add: lookupRoute_def postsRouter_def postsTemplate_def render_def add_eval
        compile_eval)
  have m: "Match ?rt ''/users/7/posts/'' = Some [''id'' \<mapsto> ''7'']"
    by (simp add: match_eval)
  have h: "wfTemplate postsTemplate \<and> optionalsLast postsTemplate
           \<and> path ?rt = render postsTemplate
           \<and> compile (path ?rt) = Some (pattern ?rt, paramNames ?rt)"
    by (simp add: postsTemplate_def wfTemplate_def render_def plain_def metachars_def
        isWordChar_def compile_eval)
  have r: "''id'' \<in> set (reqNames postsTemplate)"
    by (simp add: postsTemplate_def)
  from Match_params_sound [OF m, of postsTemplate] h r rt m
  show ?thesis by auto
qed

section \<open>Substituting values and matching\<close>

lemma runs_literal: "runs (map Chr s @ re) (s @ x) = runs re x"
  by (induction s) simp_all

lemma lead_split: "re = map Chr (lead re) @ afterLead re"
  by (induction re rule: lead.induct) simp_all

lemma lead_no_slash: "CHR ''/'' \<notin> set (lead re)"
  by (induction re rule: lead.induct) simp_all

lemma runs_literal_mismatch: "\<not> prefix s x \<Longrightarrow> runs (map Chr s @ re) x = []"
  by (induction s arbitrary: x) (auto split: list.splits)

lemma no_prefix_shifted:
  assumes t: "CHR ''/'' \<notin> set t" and j: "0 < j" "j \<le> length t"
    and x: "x = [] \<or> hd x = CHR ''/''"
  shows "\<not> prefix t (drop j t @ x)"
proof
  assume p: "prefix t (drop j t @ x)"
  then have len: "length t \<le> length (drop j t) + length x" by (auto dest: prefix_length_le)
  show False
  proof -
    note True = j(2)
    from j len x obtain y where xy: "x = CHR ''/'' # y" by (cases x) auto
    from True j have lt: "length t - j < length t" and t0: "t \<noteq> []" by auto
    from p obtain zs where e: "drop j t @ x = t @ zs" by (auto simp: prefix_def)
    have "t ! (length t - j) = (t @ zs) ! (length t - j)"
      using lt by (simp add: nth_append)
    also have "\<dots> = (drop j t @ x) ! (length t - j)" using e by simp
    also have "\<dots> = CHR ''/''" using True xy by (simp add: nth_append)
    finally show False using t lt by (metis nth_mem)
  qed
qed

lemma runs_overrun:
  assumes j: "0 < j" "j \<le> length (lead re)" and x: "x = [] \<or> hd x = CHR ''/''"
  shows "runs re (drop j (lead re) @ x) = []"
proof -
  from no_prefix_shifted [OF lead_no_slash j x]
  have "runs (map Chr (lead re) @ afterLead re) (drop j (lead re) @ x) = []"
    by (rule runs_literal_mismatch)
  then show ?thesis using lead_split [of re] by simp
qed


text \<open>What follows a token inside its segment is literal text; after it the path ends or a separator comes.\<close>

lemma subst_lead:
  "tokensApart True segs \<Longrightarrow>
     \<exists>x. subst vals segs = lead (insts segs) @ x \<and> (x = [] \<or> hd x = CHR ''/'')"
proof (induction segs)
  case Nil
  then show ?case by (simp add: subst_def insts_def)
next
  case (Cons sg segs)
  show ?case
  proof (cases sg)
    case (Lit s)
    show ?thesis
    proof (cases "CHR ''/'' \<in> set s")
      case True
      then obtain a b where s: "s = a @ CHR ''/'' # b" "CHR ''/'' \<notin> set a"
        by (meson split_list_first)
      have "lead (map Chr (a @ CHR ''/'' # b) @ re) = a" for re
        using s(2) by (induction a) auto
      with Lit s show ?thesis by (simp add: subst_def insts_def)
    next
      case False
      with Cons Lit obtain x where
        x: "subst vals segs = lead (insts segs) @ x" "x = [] \<or> hd x = CHR ''/''"
        by auto
      have "lead (map Chr s @ re) = s @ lead re" for re
        using False by (induction s) auto
      with Lit x show ?thesis by (simp add: subst_def insts_def)
    qed
  next
    case (Req n)
    with Cons.prems show ?thesis by simp
  next
    case (Opt n)
    with Cons.prems show ?thesis by simp
  qed
qed

lemma tokensApart_weaken: "tokensApart f segs \<Longrightarrow> tokensApart False segs"
proof (induction segs arbitrary: f)
  case Nil
  show ?case by simp
next
  case (Cons sg segs)
  show ?case
  proof (cases sg)
    case (Lit s)
    with Cons.prems have "tokensApart (f \<and> CHR ''/'' \<notin> set s) segs" by simp
    from Cons.IH [OF this] Lit show ?thesis by simp
  next
    case (Req n)
    with Cons.prems show ?thesis by simp
  next
    case (Opt n)
    with Cons.prems show ?thesis by simp
  qed
qed

lemma capture_none:
  "(\<And>j. 0 < j \<Longrightarrow> j \<le> k \<Longrightarrow> cont (drop j s) = []) \<Longrightarrow> capture cont s k = []"
  by (induction k) simp_all

lemma capture_first:
  assumes "0 < m" "m \<le> k" "cont (drop m s) = x # others"
    and "\<And>j. m < j \<Longrightarrow> j \<le> k \<Longrightarrow> cont (drop j s) = []"
  shows "\<exists>others'. capture cont s k = (take m s # x) # others'"
  using assms
proof (induction k)
  case 0
  then show ?case by simp
next
  case (Suc k)
  show ?case
  proof (cases "m = Suc k")
    case True
    with Suc.prems show ?thesis by simp
  next
    case False
    with Suc.prems have "m \<le> k" "cont (drop (Suc k) s) = []" by auto
    with Suc show ?thesis by auto
  qed
qed

lemma segLen_parts:
  assumes "CHR ''/'' \<notin> set v" "CHR ''/'' \<notin> set t" "x = [] \<or> hd x = CHR ''/''"
  shows "segLen (v @ t @ x) = length v + length t"
proof -
  from assms(3) have "takeWhile (\<lambda>c. c \<noteq> CHR ''/'') x = []" by (cases x) auto
  moreover from assms(1,2)
  have "takeWhile (\<lambda>c. c \<noteq> CHR ''/'') ((v @ t) @ x) = (v @ t) @ takeWhile (\<lambda>c. c \<noteq> CHR ''/'') x"
    by (intro takeWhile_append2) auto
  ultimately show ?thesis by (simp add: segLen_def)
qed

lemma runs_capture_token:
  assumes v: "CHR ''/'' \<notin> set v" and x: "x = [] \<or> hd x = CHR ''/''"
    and r: "runs re (lead re @ x) = caps # others"
  shows "v \<noteq> [] \<Longrightarrow>
           \<exists>others'. capture (runs re) (v @ lead re @ x) (segLen (v @ lead re @ x))
                        = (v # caps) # others'"
    and "capture (runs re) (lead re @ x) (segLen (lead re @ x)) = []"
proof -
  have len: "segLen (v @ lead re @ x) = length v + length (lead re)"
    by (rule segLen_parts [OF v lead_no_slash x])
  have over: "runs re (drop j (v @ lead re @ x)) = []"
    if "length v < j" "j \<le> length v + length (lead re)" for j
  proof -
    from that have "drop j (v @ lead re @ x) = drop (j - length v) (lead re) @ x" by simp
    with runs_overrun [of "j - length v" re x] that x show ?thesis by simp
  qed
  show "\<exists>others'. capture (runs re) (v @ lead re @ x) (segLen (v @ lead re @ x))
                        = (v # caps) # others'" if "v \<noteq> []"
    using capture_first [of "length v" "length v + length (lead re)" "runs re" "v @ lead re @ x" caps others]
      that r over len by simp
  have "segLen ([] @ lead re @ x) = length ([] :: string) + length (lead re)"
    by (rule segLen_parts [OF _ lead_no_slash x]) simp
  moreover have "runs re (drop j (lead re @ x)) = []" if "0 < j" "j \<le> length (lead re)" for j
    using runs_overrun [of j re x] that x by simp
  ultimately show "capture (runs re) (lead re @ x) (segLen (lead re @ x)) = []"
    by (intro capture_none) simp_all
qed

lemma runs_subst:
  "oneTokenPerSegment segs \<Longrightarrow> valuesFit vals segs \<Longrightarrow>
     \<exists>others. runs (insts segs) (subst vals segs) = map (valueOf vals) (allNames segs) # others"
  unfolding oneTokenPerSegment_def
proof (induction segs)
  case Nil
  then show ?case by (simp add: insts_def subst_def)
next
  case (Cons sg segs)
  from Cons.prems have apart: "tokensApart False segs"
    by (cases sg) (auto dest: tokensApart_weaken)
  from Cons.prems have "valuesFit vals segs" by (cases sg) simp_all
  with Cons.IH apart obtain others where
    r: "runs (insts segs) (subst vals segs) = map (valueOf vals) (allNames segs) # others"
    by auto
  show ?case
  proof (cases sg)
    case (Lit s)
    with r show ?thesis by (simp add: insts_def subst_def runs_literal)
  next
    case (Req n)
    with Cons.prems have v: "literalValue (valueOf vals n)" and ta: "tokensApart True segs"
      by simp_all
    from subst_lead [OF ta, of vals] obtain x where
      x: "subst vals segs = lead (insts segs) @ x" "x = [] \<or> hd x = CHR ''/''" by auto
    from v have "CHR ''/'' \<notin> set (valueOf vals n)" "valueOf vals n \<noteq> []"
      by (simp_all add: literalValue_def)
    from runs_capture_token(1) [OF this(1) x(2) r [unfolded x(1)] this(2)] Req x(1)
    show ?thesis by (simp add: insts_def subst_def)
  next
    case (Opt n)
    with Cons.prems have v: "vals n = None \<or> literalValue (valueOf vals n)"
      and ta: "tokensApart True segs" by simp_all
    from subst_lead [OF ta, of vals] obtain x where
      x: "subst vals segs = lead (insts segs) @ x" "x = [] \<or> hd x = CHR ''/''" by auto
    show ?thesis
    proof (cases "vals n")
      case None
      then have e: "valueOf vals n = []" by (simp add: valueOf_def)
      from runs_capture_token(2) [OF _ x(2) r [unfolded x(1)], of "[]"] e r Opt x(1)
      show ?thesis by (simp add: insts_def subst_def)
    next
      case (Some a)
      with v have "CHR ''/'' \<notin> set (valueOf vals n)" "valueOf vals n \<noteq> []"
        by (simp_all add: literalValue_def)
      from runs_capture_token(1) [OF this(1) x(2) r [unfolded x(1)] this(2)] Opt x(1)
      show ?thesis by (auto simp add: insts_def subst_def)
    qed
  qed
qed

lemma names_in_order:
  "optionalsLast segs \<Longrightarrow> reqNames segs @ optNames segs = allNames segs"
proof (induction segs)
  case Nil
  show ?case by simp
next
  case (Cons sg segs)
  have aux: "reqNames t = [] \<Longrightarrow> optNames t = allNames t" for t
    by (induction t rule: allNames.induct) simp_all
  from Cons show ?case by (cases sg) (simp_all add: aux)
qed

lemma bindParams_distinct:
  "distinct ns \<Longrightarrow>
     bindParams (map (\<lambda>n. (n, f n)) ns) ps
       = (\<lambda>m. if m \<in> set ns \<and> f m \<noteq> [] then Some (f m) else ps m)"
proof (induction ns arbitrary: ps)
  case Nil
  show ?case by simp
next
  case (Cons n ns)
  then have "bindParams (map (\<lambda>n. (n, f n)) ns) (if f n \<noteq> [] then ps(n \<mapsto> f n) else ps)
       = (\<lambda>m. if m \<in> set ns \<and> f m \<noteq> [] then Some (f m) else (if f n \<noteq> [] then ps(n \<mapsto> f n) else ps) m)"
    by simp
  with Cons.prems show ?case by (auto simp: fun_eq_iff)
qed

lemma valuesFit_nonempty:
  "valuesFit vals segs \<Longrightarrow> n \<in> set (allNames segs) \<Longrightarrow> vals n = Some v \<Longrightarrow> v \<noteq> []"
  by (induction segs rule: allNames.induct) (auto simp: literalValue_def valueOf_def)

lemma dashRouter_route:
  "lookupRoute dashRouter (''GET'', 0)
     = Some \<lparr>routeMethod = ''GET'', path = ''/{a}-{b}'', handler = tagHandler ''ab'',
              middleware = [], name = [],
              pattern = [Chr CHR ''/'', ReqCap, Chr CHR ''-'', ReqCap],
              paramNames = [''a'', ''b'']\<rparr>"
  by (simp add: lookupRoute_def dashRouter_def add_eval compile_eval)

text \<open>
  Claim C6, as stated, fails. The template \<^verbatim>\<open>/{a}-{b}\<close> is registered; \<open>1\<close> and \<open>2-3\<close>
  are literal values (not empty, no separator), and substituting them gives the path
  \<^verbatim>\<open>/1-2-3\<close>. The matcher accepts it, but the first capture takes the longest run it
  can: the result binds \<open>a\<close> to \<open>1-2\<close> and \<open>b\<close> to \<open>3\<close>, not the values substituted.
\<close>

theorem Match_greedy_counterexample:
  "render dashTemplate = ''/{a}-{b}''
   \<and> literalValue ''1'' \<and> literalValue ''2-3''
   \<and> subst [''a'' \<mapsto> ''1'', ''b'' \<mapsto> ''2-3''] dashTemplate = ''/1-2-3''
   \<and> Match (the (lookupRoute dashRouter (''GET'', 0))) ''/1-2-3''
       = Some [''a'' \<mapsto> ''1-2'', ''b'' \<mapsto> ''3'']
   \<and> [''a'' \<mapsto> ''1-2'', ''b'' \<mapsto> ''3''] ''b'' \<noteq> Some ''2-3''"
  by (simp add: dashRouter_route dashTemplate_def render_def subst_def valueOf_def
      literalValue_def match_eval)

text \<open>
  Claim C6, amended. Take a template in the documented syntax whose literal text has no
  regexp metacharacter, in which no two tokens stand in the same path segment, no
  required token comes after an optional one, and the names are distinct; take a
  literal (non-empty, separator-free) value for every required token and for any of the
  optional ones. Then the route compiled from the
  template accepts the path built by substitution, and the result of the match is
  exactly the assignment of the values to the names: an optional token that got no
  value is absent from it.
\<close>

theorem compile_match_roundtrip:
  assumes wf: "wfTemplate segs" and sep: "oneTokenPerSegment segs" and ol: "optionalsLast segs"
    and dist: "distinct (allNames segs)" and fit: "valuesFit vals segs"
    and p: "path rt = render segs" and c: "compile (path rt) = Some (pattern rt, paramNames rt)"
  shows "Match rt (subst vals segs) = Some (vals |` set (allNames segs))"
proof -
  from compile_render [OF wf] p c names_in_order [OF ol]
  have pat: "pattern rt = insts segs" and names: "paramNames rt = allNames segs" by simp_all
  from runs_subst [OF sep fit] obtain others where
    "runs (insts segs) (subst vals segs) = map (valueOf vals) (allNames segs) # others" ..
  with pat names have "Match rt (subst vals segs)
      = Some (bindParams (zip (allNames segs) (map (valueOf vals) (allNames segs))) Map.empty)"
    by (simp add: Match_runs)
  also have "zip (allNames segs) (map (valueOf vals) (allNames segs))
               = map (\<lambda>n. (n, valueOf vals n)) (allNames segs)"
    by (simp add: zip_map2 zip_same_conv_map)
  also have "bindParams \<dots> Map.empty = vals |` set (allNames segs)"
  proof
    fix m
    show "bindParams (map (\<lambda>n. (n, valueOf vals n)) (allNames segs)) Map.empty m
            = (vals |` set (allNames segs)) m"
      using valuesFit_nonempty [OF fit, of m]
      by (auto simp: bindParams_distinct [OF dist] restrict_map_def valueOf_def split: option.splits)
  qed
  finally show ?thesis .
qed

theorem compile_match_roundtrip_witness:
  "subst [''id'' \<mapsto> ''7''] postsTemplate = ''/users/7/posts/''
   \<and> Match (the (lookupRoute postsRouter (''GET'', 0))) ''/users/7/posts/''
       = Some ([''id'' \<mapsto> ''7''] |` set [''id'', ''pid''])
   \<and> ([''id'' \<mapsto> ''7''] |` set [''id'', ''pid'']) ''pid'' = None
   \<and> subst [''id'' \<mapsto> ''7'', ''pid'' \<mapsto> ''42''] postsTemplate = ''/users/7/posts/42''
   \<and> Match (the (lookupRoute postsRouter (''GET'', 0))) ''/users/7/posts/42''
       = Some ([''id'' \<mapsto> ''7'', ''pid'' \<mapsto> ''42''] |` set [''id'', ''pid''])"
proof -
  let ?rt = "\<lparr>routeMethod = ''GET'', path = render postsTemplate, handler = tagHandler ''posts'',
              middleware = [], name = [],
              pattern = map Chr ''/users/'' @ [ReqCap] @ map Chr ''/posts/'' @ [OptCap],
              paramNames = [''id'', ''pid'']\<rparr>"
  have rt: "lookupRoute postsRouter (''GET'', 0) = Some ?rt"
    by (simp add: lookupRoute_def postsRouter_def postsTemplate_def render_def add_eval
        compile_eval)
  have wf: "wfTemplate postsTemplate"
    by (simp add: postsTemplate_def wfTemplate_def plain_def metachars_def isWordChar_def)
  have sep: "oneTokenPerSegment postsTemplate" and ol: "optionalsLast postsTemplate"
    and dist: "distinct (allNames postsTemplate)"
    by (simp_all add: postsTemplate_def oneTokenPerSegment_def)
  have fit1: "valuesFit [''id'' \<mapsto> ''7''] postsTemplate"
    and fit2: "valuesFit [''id'' \<mapsto> ''7'', ''pid'' \<mapsto> ''42''] postsTemplate"
    by (simp_all add: postsTemplate_def literalValue_def valueOf_def)
  have p: "path ?rt = render postsTemplate" by simp
  have c: "compile (path ?rt) = Some (pattern ?rt, paramNames ?rt)"
    by (simp add: postsTemplate_def render_def compile_eval)
  have s: "subst [''id'' \<mapsto> ''7''] postsTemplate = ''/users/7/posts/''"
    "subst [''id'' \<mapsto> ''7'', ''pid'' \<mapsto> ''42''] postsTemplate = ''/users/7/posts/42''"
    "allNames postsTemplate = [''id'', ''pid'']"
    by (simp_all add: postsTemplate_def subst_def valueOf_def)
  from compile_match_roundtrip [OF wf sep ol dist fit1 p c]
    compile_match_roundtrip [OF wf sep ol dist fit2 p c] rt s
  show ?thesis by (simp add: restrict_map_def)
qed

end
